theory Spec2Isabelle
  imports Complex_Main "HOL-Library.Log_Nat"
begin

section \<open>JavaScript numbers\<close>

text \<open>
  Every numeric value of \<^verbatim>\<open>animometer.ts\<close> is a JavaScript Number, an IEEE 754 binary64
  value, and the elements of a \<^verbatim>\<open>Float32Array\<close> are binary32 values. A finite value is
  modelled by the rational it denotes; an arithmetic operation computes the exact result and
  rounds it to the nearest representable value, ties to even. Negative zero is not
  distinguished from zero. Loop counters, array indices, element counts and byte offsets are
  integers far below \<open>2^53\<close>, on which the operations are exact; they are natural numbers
  here.
\<close>

definition round_half_even :: "rat \<Rightarrow> int" where
  "round_half_even x =
     (let n = \<lfloor>x\<rfloor>; d = x - of_int n in
      if d < 1 / 2 then n else if 1 / 2 < d then n + 1 else if even n then n else n + 1)"

text \<open>\<open>ilog2 x\<close> is the binary exponent of \<open>x \<noteq> 0\<close>: \<open>2 powi ilog2 x \<le> \<bar>x\<bar> < 2 powi (ilog2 x + 1)\<close>.\<close>

definition ilog2 :: "rat \<Rightarrow> int" where
  "ilog2 x =
     (let (a, b) = quotient_of \<bar>x\<bar>; k = bitlen a - bitlen b
      in if 2 powi k \<le> \<bar>x\<bar> then k else k - 1)"

text \<open>
  Rounding to a binary format with \<open>p\<close> significand bits and least normal exponent
  \<open>emin\<close>; below \<open>2 powi emin\<close> the spacing stays that of the subnormal numbers.
\<close>

definition round_to :: "nat \<Rightarrow> int \<Rightarrow> rat \<Rightarrow> rat" where
  "round_to p emin x =
     (let q = 2 powi (max (ilog2 x) emin - int p + 1)
      in of_int (round_half_even (x / q)) * q)"

definition fl64 :: "rat \<Rightarrow> rat" where
  "fl64 = round_to 53 (- 1022)"

text \<open>The conversion applied by a store into a \<^verbatim>\<open>Float32Array\<close> (\<^verbatim>\<open>Math.fround\<close>).\<close>

definition fround :: "rat \<Rightarrow> rat" where
  "fround = round_to 24 (- 126)"

text \<open>
  The operators \<^verbatim>\<open>+ - * /\<close> on finite Numbers whose result stays finite (below \<open>2^1024\<close>
  in magnitude, so that there is no overflow to an infinity): frame timestamps, clock
  readings, random draws and what is computed from them.
\<close>

definition f64_add :: "rat \<Rightarrow> rat \<Rightarrow> rat" where
  "f64_add x y = fl64 (x + y)"

definition f64_sub :: "rat \<Rightarrow> rat \<Rightarrow> rat" where
  "f64_sub x y = fl64 (x - y)"

definition f64_mul :: "rat \<Rightarrow> rat \<Rightarrow> rat" where
  "f64_mul x y = fl64 (x * y)"

definition f64_div :: "rat \<Rightarrow> rat \<Rightarrow> rat" where
  "f64_div x y = fl64 (x / y)"

text \<open>
  \<^verbatim>\<open>settings.numTriangles\<close> is assigned from \<^verbatim>\<open>valueAsNumber\<close> of an input element and
  can be any Number, \<^verbatim>\<open>NaN\<close> included, so it is modelled with the special values.
\<close>

datatype number = Finite rat | NaN | PosInfinity | NegInfinity

text \<open>The Number for an exact result \<open>x\<close>: rounded, and infinite on overflow.\<close>

definition to_number :: "rat \<Rightarrow> number" where
  "to_number x =
     (let r = fl64 x in
      if 2 ^ 1024 \<le> r then PosInfinity
      else if r \<le> - (2 ^ 1024) then NegInfinity
      else Finite r)"

fun num_times :: "number \<Rightarrow> number \<Rightarrow> number" where
  "num_times (Finite x) (Finite y) = to_number (x * y)"
| "num_times NaN _ = NaN"
| "num_times _ NaN = NaN"
| "num_times (Finite x) PosInfinity =
     (if x = 0 then NaN else if 0 < x then PosInfinity else NegInfinity)"
| "num_times (Finite x) NegInfinity =
     (if x = 0 then NaN else if 0 < x then NegInfinity else PosInfinity)"
| "num_times PosInfinity (Finite y) =
     (if y = 0 then NaN else if 0 < y then PosInfinity else NegInfinity)"
| "num_times NegInfinity (Finite y) =
     (if y = 0 then NaN else if 0 < y then NegInfinity else PosInfinity)"
| "num_times PosInfinity PosInfinity = PosInfinity"
| "num_times PosInfinity NegInfinity = NegInfinity"
| "num_times NegInfinity PosInfinity = NegInfinity"
| "num_times NegInfinity NegInfinity = PosInfinity"

fun num_plus :: "number \<Rightarrow> number \<Rightarrow> number" where
  "num_plus (Finite x) (Finite y) = to_number (x + y)"
| "num_plus NaN _ = NaN"
| "num_plus _ NaN = NaN"
| "num_plus (Finite x) PosInfinity = PosInfinity"
| "num_plus (Finite x) NegInfinity = NegInfinity"
| "num_plus PosInfinity (Finite y) = PosInfinity"
| "num_plus NegInfinity (Finite y) = NegInfinity"
| "num_plus PosInfinity PosInfinity = PosInfinity"
| "num_plus PosInfinity NegInfinity = NaN"
| "num_plus NegInfinity PosInfinity = NaN"
| "num_plus NegInfinity NegInfinity = NegInfinity"

section \<open>Arrays of the language\<close>

datatype error = RangeError | DeviceError

text \<open>\<^verbatim>\<open>Float32Array.BYTES_PER_ELEMENT\<close>\<close>

definition BYTES_PER_ELEMENT :: nat where
  "BYTES_PER_ELEMENT = 4"

text \<open>
  \<^verbatim>\<open>new Float32Array(len)\<close>: the length goes through \<^verbatim>\<open>ToIndex\<close>, which takes \<^verbatim>\<open>NaN\<close>
  to 0, truncates towards zero and throws a \<^verbatim>\<open>RangeError\<close> outside \<open>0 .. 2^53 - 1\<close>;
  the byte length has the same upper limit. The elements start as 0. (That an engine may
  also refuse a length for lack of memory is not modelled.)
\<close>

definition trunc :: "rat \<Rightarrow> int" where
  "trunc x = (if 0 \<le> x then \<lfloor>x\<rfloor> else \<lceil>x\<rceil>)"

definition newFloat32Array :: "number \<Rightarrow> error + rat list" where
  "newFloat32Array len =
     (case len of
        NaN \<Rightarrow> Inr []
      | PosInfinity \<Rightarrow> Inl RangeError
      | NegInfinity \<Rightarrow> Inl RangeError
      | Finite x \<Rightarrow>
          (let i = trunc x in
           if i < 0 \<or> 2 ^ 53 - 1 < i * int BYTES_PER_ELEMENT then Inl RangeError
           else Inr (replicate (nat i) 0)))"

text \<open>
  \<^verbatim>\<open>new Array(len)\<close> with a Number argument: a \<^verbatim>\<open>RangeError\<close> unless \<open>len\<close> is an
  integer in \<open>0 .. 2^32 - 1\<close>; otherwise \<open>len\<close> empty slots.
\<close>

definition newArray :: "number \<Rightarrow> error + 'a option list" where
  "newArray len =
     (case len of
        Finite x \<Rightarrow>
          (if x = of_int \<lfloor>x\<rfloor> \<and> 0 \<le> x \<and> x < 2 ^ 32 then Inr (replicate (nat \<lfloor>x\<rfloor>) None)
           else Inl RangeError)
      | NaN \<Rightarrow> Inl RangeError
      | PosInfinity \<Rightarrow> Inl RangeError
      | NegInfinity \<Rightarrow> Inl RangeError)"

text \<open>
  Reading and assigning an element of an \<^verbatim>\<open>Array\<close>: a read of an empty slot or beyond
  the end gives \<^verbatim>\<open>undefined\<close>; an assignment beyond the end extends the array with empty
  slots. (A store into a typed array beyond its end is ignored, as \<open>xs[i := v]\<close> is.)
\<close>

definition element :: "'a option list \<Rightarrow> nat \<Rightarrow> 'a option" where
  "element xs i = (if i < length xs then xs ! i else None)"

definition assign :: "'a option list \<Rightarrow> nat \<Rightarrow> 'a \<Rightarrow> 'a option list" where
  "assign xs i v =
     (if i < length xs then xs[i := Some v]
      else xs @ replicate (i - length xs) None @ [Some v])"

section \<open>Device objects\<close>

text \<open>
  The graphics device is outside the source file. Its objects are modelled by what the
  program passes when it creates them. \<^verbatim>\<open>createBuffer\<close> may throw on the size it is given;
  which sizes it refuses is a parameter, as is the identity of the buffer it returns.
\<close>

datatype bind_group_layout = timeBindGroupLayout | bindGroupLayout | dynamicBindGroupLayout

datatype render_pipeline = pipeline | dynamicPipeline

datatype vertex_buffer = vertexBuffer

record gpu_buffer =
  buffer_id :: nat
  buffer_size :: number

record bind_group =
  bg_layout :: bind_group_layout
  bg_buffer :: gpu_buffer
  bg_offset :: nat
  bg_size :: nat

record device =
  createBufferThrows :: "number \<Rightarrow> bool"
  nextBufferId :: nat

definition createBuffer :: "device \<Rightarrow> number \<Rightarrow> error + gpu_buffer" where
  "createBuffer dev sz =
     (if createBufferThrows dev sz then Inl DeviceError
      else Inr \<lparr>buffer_id = nextBufferId dev, buffer_size = sz\<rparr>)"

text \<open>The calls that an encoder (of a render pass or of a render bundle) records.\<close>

datatype render_command =
    SetPipeline render_pipeline
  | SetVertexBuffer nat vertex_buffer
  | SetBindGroup nat "bind_group option" "nat list"
  | Draw nat nat nat nat

type_synonym encoder = "render_command list"

definition setPipeline :: "encoder \<Rightarrow> render_pipeline \<Rightarrow> encoder" where
  "setPipeline enc p = enc @ [SetPipeline p]"

definition setVertexBuffer :: "encoder \<Rightarrow> nat \<Rightarrow> vertex_buffer \<Rightarrow> encoder" where
  "setVertexBuffer enc slot b = enc @ [SetVertexBuffer slot b]"

definition setBindGroup :: "encoder \<Rightarrow> nat \<Rightarrow> bind_group option \<Rightarrow> nat list \<Rightarrow> encoder" where
  "setBindGroup enc index g offsets = enc @ [SetBindGroup index g offsets]"

definition draw :: "encoder \<Rightarrow> nat \<Rightarrow> nat \<Rightarrow> nat \<Rightarrow> nat \<Rightarrow> encoder" where
  "draw enc vertexCount instanceCount firstVertex firstInstance =
     enc @ [Draw vertexCount instanceCount firstVertex firstInstance]"

text \<open>What a render pass is given: commands encoded directly, or bundles to execute.\<close>

datatype pass_command = Encoded render_command | ExecuteBundles "render_command list list"

text \<open>One call of \<^verbatim>\<open>device.queue.writeBuffer(buffer, bufferOffset, data, dataOffset, size)\<close>.\<close>

record write_buffer =
  wb_buffer :: gpu_buffer
  wb_bufferOffset :: nat
  wb_dataOffset :: nat
  wb_size :: nat

section \<open>The settings and \<^verbatim>\<open>configure\<close>\<close>

record settings =
  numTriangles :: number
  renderBundles :: bool
  dynamicOffsets :: bool

definition initialSettings :: settings where
  "initialSettings = \<lparr>numTriangles = Finite 20000, renderBundles = False, dynamicOffsets = False\<rparr>"

text \<open>
  The layout constants of \<^verbatim>\<open>configure\<close>. They are small integers, computed without
  rounding: \<^verbatim>\<open>Math.ceil(uniformBytes / 256) * 256\<close>.
\<close>

definition uniformBytes :: nat where
  "uniformBytes = 5 * BYTES_PER_ELEMENT"

definition alignedUniformBytes :: nat where
  "alignedUniformBytes = nat \<lceil>(of_nat uniformBytes :: rat) / 256\<rceil> * 256"

definition alignedUniformFloats :: nat where
  "alignedUniformFloats = alignedUniformBytes div BYTES_PER_ELEMENT"

text \<open>
  The five stores of one iteration of the first loop. \<open>mathRandom k\<close> is the value that the
  \<open>k\<close>-th call of \<^verbatim>\<open>Math.random()\<close> within this \<^verbatim>\<open>configure\<close> returns; instance \<open>i\<close> makes
  the calls \<open>5 * i\<close> to \<open>5 * i + 4\<close>. The stride is an argument so that the loop can be
  studied for every stride; \<^verbatim>\<open>configure\<close> passes \<open>alignedUniformFloats\<close>.
\<close>

definition scaleOf :: "rat \<Rightarrow> rat" where
  "scaleOf r = fround (f64_add (f64_mul r (fl64 (2 / 10))) (fl64 (2 / 10)))"

definition offsetOf :: "rat \<Rightarrow> rat" where
  "offsetOf r = fround (f64_mul (f64_mul (fl64 (9 / 10)) 2) (f64_sub r (fl64 (5 / 10))))"

definition scalarOf :: "rat \<Rightarrow> rat" where
  "scalarOf r = fround (f64_add (f64_mul r (fl64 (15 / 10))) (fl64 (5 / 10)))"

definition scalarOffsetOf :: "rat \<Rightarrow> rat" where
  "scalarOffsetOf r = fround (f64_mul r 10)"

definition writeInstance :: "nat \<Rightarrow> (nat \<Rightarrow> rat) \<Rightarrow> nat \<Rightarrow> rat list \<Rightarrow> rat list" where
  "writeInstance stride mathRandom i uniformBufferData =
     uniformBufferData
       [stride * i + 0 := scaleOf (mathRandom (5 * i)),
        stride * i + 1 := offsetOf (mathRandom (5 * i + 1)),
        stride * i + 2 := offsetOf (mathRandom (5 * i + 2)),
        stride * i + 3 := scalarOf (mathRandom (5 * i + 3)),
        stride * i + 4 := scalarOffsetOf (mathRandom (5 * i + 4))]"

definition staticBindGroup :: "gpu_buffer \<Rightarrow> nat \<Rightarrow> bind_group" where
  "staticBindGroup uniformBuffer i =
     \<lparr>bg_layout = bindGroupLayout, bg_buffer = uniformBuffer,
      bg_offset = i * alignedUniformBytes, bg_size = 6 * BYTES_PER_ELEMENT\<rparr>"

definition fillStep ::
  "nat \<Rightarrow> (nat \<Rightarrow> rat) \<Rightarrow> gpu_buffer \<Rightarrow> nat \<Rightarrow> rat list \<times> bind_group option list
     \<Rightarrow> rat list \<times> bind_group option list" where
  "fillStep stride mathRandom uniformBuffer i st =
     (writeInstance stride mathRandom i (fst st),
      assign (snd st) i (staticBindGroup uniformBuffer i))"

function fillLoop ::
  "nat \<Rightarrow> (nat \<Rightarrow> rat) \<Rightarrow> gpu_buffer \<Rightarrow> nat \<Rightarrow> nat \<Rightarrow> rat list \<times> bind_group option list
     \<Rightarrow> rat list \<times> bind_group option list" where
  "fillLoop stride mathRandom uniformBuffer n i st =
     (if i < n
      then fillLoop stride mathRandom uniformBuffer n (i + 1)
             (fillStep stride mathRandom uniformBuffer i st)
      else st)"
  by pat_completeness auto
termination
  by (relation "measure (\<lambda>(stride, mathRandom, uniformBuffer, n, i, st). n - i)") auto

definition fillInstances ::
  "nat \<Rightarrow> (nat \<Rightarrow> rat) \<Rightarrow> gpu_buffer \<Rightarrow> nat \<Rightarrow> rat list \<times> bind_group option list
     \<Rightarrow> rat list \<times> bind_group option list" where
  "fillInstances stride mathRandom uniformBuffer n st =
     fillLoop stride mathRandom uniformBuffer n 0 st"

text \<open>The upload loop; offsets and lengths of the loop are in elements, those of the calls in bytes.\<close>

definition maxMappingLength :: nat where
  "maxMappingLength = (14 * 1024 * 1024) div BYTES_PER_ELEMENT"

function uploadLoop :: "gpu_buffer \<Rightarrow> nat \<Rightarrow> nat \<Rightarrow> write_buffer list" where
  "uploadLoop uniformBuffer len offset =
     (if offset < len then
        (let uploadCount = min (len - offset) maxMappingLength in
         \<lparr>wb_buffer = uniformBuffer,
          wb_bufferOffset = offset * BYTES_PER_ELEMENT,
          wb_dataOffset = 0 + offset * BYTES_PER_ELEMENT,
          wb_size = uploadCount * BYTES_PER_ELEMENT\<rparr>
         # uploadLoop uniformBuffer len (offset + maxMappingLength))
      else [])"
  by pat_completeness auto
termination
  by (relation "measure (\<lambda>(b, len, offset). len - offset)")
     (auto simp: maxMappingLength_def BYTES_PER_ELEMENT_def)

text \<open>\<^verbatim>\<open>recordRenderPass\<close> reads \<^verbatim>\<open>settings.dynamicOffsets\<close> when it runs.\<close>

definition recordInstance ::
  "settings \<Rightarrow> bind_group option list \<Rightarrow> bind_group \<Rightarrow> nat \<Rightarrow> encoder \<Rightarrow> encoder" where
  "recordInstance s bindGroups dynamicBindGroup i passEncoder =
     draw
       (if dynamicOffsets s
        then setBindGroup passEncoder 1 (Some dynamicBindGroup) [i * alignedUniformBytes]
        else setBindGroup passEncoder 1 (element bindGroups i) [])
       3 1 0 0"

function recordLoop ::
  "settings \<Rightarrow> nat \<Rightarrow> bind_group option list \<Rightarrow> bind_group \<Rightarrow> nat \<Rightarrow> encoder \<Rightarrow> encoder"
  where
  "recordLoop s n bindGroups dynamicBindGroup i passEncoder =
     (if i < n
      then recordLoop s n bindGroups dynamicBindGroup (i + 1)
             (recordInstance s bindGroups dynamicBindGroup i passEncoder)
      else passEncoder)"
  by pat_completeness auto
termination
  by (relation "measure (\<lambda>(s, n, bindGroups, dynamicBindGroup, i, passEncoder). n - i)") auto

definition recordRenderPass ::
  "settings \<Rightarrow> nat \<Rightarrow> bind_group option list \<Rightarrow> bind_group \<Rightarrow> bind_group \<Rightarrow> encoder \<Rightarrow> encoder"
  where
  "recordRenderPass s n bindGroups dynamicBindGroup timeBindGroup passEncoder =
     recordLoop s n bindGroups dynamicBindGroup 0
       (setBindGroup
          (setVertexBuffer
             (setPipeline passEncoder (if dynamicOffsets s then dynamicPipeline else pipeline))
             0 vertexBuffer)
          0 (Some timeBindGroup) [])"

text \<open>
  What the closure returned by \<^verbatim>\<open>configure\<close> has captured, with its two mutable
  variables \<^verbatim>\<open>startTime\<close> and \<^verbatim>\<open>uniformTime\<close>; the calls of \<^verbatim>\<open>queue.writeBuffer\<close> made by
  \<^verbatim>\<open>configure\<close> are kept in \<open>uploads\<close>.
\<close>

record configuration =
  numTriangles_const :: nat
  uniformBuffer :: gpu_buffer
  uniformBufferData :: "rat list"
  bindGroups :: "bind_group option list"
  dynamicBindGroup :: bind_group
  timeOffset :: nat
  timeBindGroup :: bind_group
  uploads :: "write_buffer list"
  renderBundle :: "render_command list"
  startTime :: "rat option"
  uniformTime :: rat

text \<open>
  The part of \<^verbatim>\<open>configure\<close> after the three allocations. The loops run to
  \<^verbatim>\<open>numTriangles\<close>, which is the length of the array that \<^verbatim>\<open>new Array(numTriangles)\<close>
  returned.
\<close>

definition configureWith ::
  "settings \<Rightarrow> (nat \<Rightarrow> rat) \<Rightarrow> gpu_buffer \<Rightarrow> rat list \<Rightarrow> bind_group option list \<Rightarrow> configuration"
  where
  "configureWith s mathRandom buf zeros slots =
     (let n = length slots;
          filled = fillInstances alignedUniformFloats mathRandom buf n (zeros, slots);
          dynamicGroup = \<lparr>bg_layout = dynamicBindGroupLayout, bg_buffer = buf,
                          bg_offset = 0, bg_size = 6 * BYTES_PER_ELEMENT\<rparr>;
          timeOff = n * alignedUniformBytes;
          timeGroup = \<lparr>bg_layout = timeBindGroupLayout, bg_buffer = buf,
                       bg_offset = timeOff, bg_size = BYTES_PER_ELEMENT\<rparr>
      in \<lparr>numTriangles_const = n,
          uniformBuffer = buf,
          uniformBufferData = fst filled,
          bindGroups = snd filled,
          dynamicBindGroup = dynamicGroup,
          timeOffset = timeOff,
          timeBindGroup = timeGroup,
          uploads = uploadLoop buf (length (fst filled)) 0,
          renderBundle = recordRenderPass s n (snd filled) dynamicGroup timeGroup [],
          startTime = None,
          uniformTime = 0\<rparr>)"

definition configure :: "device \<Rightarrow> (nat \<Rightarrow> rat) \<Rightarrow> settings \<Rightarrow> error + configuration" where
  "configure dev mathRandom s =
     (case createBuffer dev
             (num_plus (num_times (numTriangles s) (Finite (of_nat alignedUniformBytes)))
                (Finite (of_nat BYTES_PER_ELEMENT))) of
        Inl e \<Rightarrow> Inl e
      | Inr buf \<Rightarrow>
          (case newFloat32Array (num_times (numTriangles s) (Finite (of_nat alignedUniformFloats))) of
             Inl e \<Rightarrow> Inl e
           | Inr zeros \<Rightarrow>
               (case newArray (numTriangles s) of
                  Inl e \<Rightarrow> Inl e
                | Inr slots \<Rightarrow> Inr (configureWith s mathRandom buf zeros slots))))"

section \<open>The draw function, the event handlers and the frame callback\<close>

text \<open>What one call of \<^verbatim>\<open>doDraw\<close> hands to the device.\<close>

record frame_output =
  written_buffer :: gpu_buffer
  written_offset :: nat
  written_time :: rat
  submitted :: "pass_command list"

definition doDraw :: "settings \<Rightarrow> configuration \<Rightarrow> rat \<Rightarrow> configuration \<times> frame_output" where
  "doDraw s c timestamp =
     (let start = (case startTime c of None \<Rightarrow> timestamp | Some t \<Rightarrow> t);
          time = fround (f64_div (f64_sub timestamp start) 1000)
      in (c\<lparr>startTime := Some start, uniformTime := time\<rparr>,
          \<lparr>written_buffer = uniformBuffer c,
           written_offset = timeOffset c,
           written_time = time,
           submitted =
             (if renderBundles s then [ExecuteBundles [renderBundle c]]
              else map Encoded
                     (recordRenderPass s (numTriangles_const c) (bindGroups c)
                        (dynamicBindGroup c) (timeBindGroup c) []))\<rparr>))"

text \<open>
  The variables of \<^verbatim>\<open>init\<close> that outlive a call: the settings object, the variable
  \<^verbatim>\<open>doDraw\<close> holding the current closure, and the three variables of the frame statistics.
\<close>

record app =
  settings :: settings
  doDraw_var :: configuration
  previousFrameTimestamp :: "rat option"
  jsTimeAvg :: "rat option"
  frameTimeAvg :: "rat option"

text \<open>
  \<^verbatim>\<open>doDraw = configure()\<close>: when \<^verbatim>\<open>configure\<close> throws, the assignment does not happen and
  the exception leaves the event listener; it is returned beside the state.
\<close>

definition updateSettings :: "device \<Rightarrow> (nat \<Rightarrow> rat) \<Rightarrow> app \<Rightarrow> app \<times> error option" where
  "updateSettings dev mathRandom a =
     (case configure dev mathRandom (settings a) of
        Inl e \<Rightarrow> (a, Some e)
      | Inr c \<Rightarrow> (a\<lparr>doDraw_var := c\<rparr>, None))"

definition numTrianglesChange ::
  "device \<Rightarrow> (nat \<Rightarrow> rat) \<Rightarrow> number \<Rightarrow> app \<Rightarrow> app \<times> error option" where
  "numTrianglesChange dev mathRandom valueAsNumber a =
     updateSettings dev mathRandom (a\<lparr>settings := (settings a)\<lparr>numTriangles := valueAsNumber\<rparr>\<rparr>)"

definition dynamicOffsetsInput ::
  "device \<Rightarrow> (nat \<Rightarrow> rat) \<Rightarrow> bool \<Rightarrow> app \<Rightarrow> app \<times> error option" where
  "dynamicOffsetsInput dev mathRandom checked a =
     updateSettings dev mathRandom (a\<lparr>settings := (settings a)\<lparr>dynamicOffsets := checked\<rparr>\<rparr>)"

definition renderBundlesInput ::
  "device \<Rightarrow> (nat \<Rightarrow> rat) \<Rightarrow> bool \<Rightarrow> app \<Rightarrow> app \<times> error option" where
  "renderBundlesInput dev mathRandom checked a =
     updateSettings dev mathRandom (a\<lparr>settings := (settings a)\<lparr>renderBundles := checked\<rparr>\<rparr>)"

text \<open>The state in which \<^verbatim>\<open>init\<close> leaves these variables before the first frame.\<close>

definition init :: "device \<Rightarrow> (nat \<Rightarrow> rat) \<Rightarrow> error + app" where
  "init dev mathRandom =
     (case configure dev mathRandom initialSettings of
        Inl e \<Rightarrow> Inl e
      | Inr c \<Rightarrow>
          Inr \<lparr>settings = initialSettings, doDraw_var = c, previousFrameTimestamp = None,
               jsTimeAvg = None, frameTimeAvg = None\<rparr>)"

text \<open>
  The smoothing step \<^verbatim>\<open>(1 - w) * avg + w * sample\<close> with \<^verbatim>\<open>w = 0.2\<close>, and the update of one
  of the two averages, which is first seeded with the sample when it is still undefined.
\<close>

definition smooth :: "rat \<Rightarrow> rat \<Rightarrow> rat" where
  "smooth avg sample =
     (let w = fl64 (2 / 10)
      in f64_add (f64_mul (f64_sub 1 w) avg) (f64_mul w sample))"

definition updateAvg :: "rat option \<Rightarrow> rat \<Rightarrow> rat option" where
  "updateAvg avg sample = Some (smooth (case avg of None \<Rightarrow> sample | Some v \<Rightarrow> v) sample)"

definition frameTime :: "app \<Rightarrow> rat \<Rightarrow> rat" where
  "frameTime a timestamp =
     (case previousFrameTimestamp a of None \<Rightarrow> 0 | Some p \<Rightarrow> f64_sub timestamp p)"

text \<open>
  \<^verbatim>\<open>frame(timestamp)\<close>; \<open>now0\<close> and \<open>now1\<close> are the two readings of \<^verbatim>\<open>performance.now()\<close>
  around the call of \<^verbatim>\<open>doDraw\<close>. The text shown in the page is left out.
\<close>

definition frame :: "app \<Rightarrow> rat \<Rightarrow> rat \<Rightarrow> rat \<Rightarrow> app \<times> frame_output" where
  "frame a timestamp now0 now1 =
     (let drawn = doDraw (settings a) (doDraw_var a) timestamp;
          jsTime = f64_sub now1 now0
      in (a\<lparr>doDraw_var := fst drawn,
            previousFrameTimestamp := Some timestamp,
            frameTimeAvg := updateAvg (frameTimeAvg a) (frameTime a timestamp),
            jsTimeAvg := updateAvg (jsTimeAvg a) jsTime\<rparr>,
          snd drawn))"

section \<open>Notions used in the statements\<close>

text \<open>The buffer that \<^verbatim>\<open>createBuffer\<close> returns to a \<^verbatim>\<open>configure\<close> for \<open>n\<close> triangles.\<close>

definition bufferFor :: "device \<Rightarrow> nat \<Rightarrow> gpu_buffer" where
  "bufferFor dev n =
     \<lparr>buffer_id = nextBufferId dev,
      buffer_size = Finite (of_nat (n * alignedUniformBytes + BYTES_PER_ELEMENT))\<rparr>"

text \<open>
  The range of a buffer that a \<^verbatim>\<open>setBindGroup\<close> call exposes to the shader: the range of
  the group's binding, moved by the dynamic offset given with the call. Reading the
  binding reads that range of the buffer's contents.
\<close>

fun boundRange :: "render_command \<Rightarrow> (gpu_buffer \<times> nat \<times> nat) option" where
  "boundRange (SetBindGroup index (Some g) offsets) =
     Some (bg_buffer g, bg_offset g + sum_list offsets, bg_size g)"
| "boundRange _ = None"

definition readRange :: "(nat \<Rightarrow> 'a list) \<Rightarrow> gpu_buffer \<times> nat \<times> nat \<Rightarrow> 'a list" where
  "readRange memory r = (case r of (b, off, len) \<Rightarrow> take len (drop off (memory (buffer_id b))))"

text \<open>The two commands that \<^verbatim>\<open>recordRenderPass\<close> is to record for instance \<open>i\<close>.\<close>

definition instanceCommands ::
  "settings \<Rightarrow> bind_group option list \<Rightarrow> bind_group \<Rightarrow> nat \<Rightarrow> render_command list" where
  "instanceCommands s groups dynamicGroup i =
     [SetBindGroup 1 (if dynamicOffsets s then Some dynamicGroup else element groups i)
        (if dynamicOffsets s then [i * alignedUniformBytes] else []),
      Draw 3 1 0 0]"

text \<open>The commands that a render pass performs, those of its bundles included.\<close>

fun performed :: "pass_command \<Rightarrow> render_command list" where
  "performed (Encoded r) = [r]"
| "performed (ExecuteBundles bundles) = concat bundles"

definition executed :: "pass_command list \<Rightarrow> render_command list" where
  "executed cmds = concat (map performed cmds)"

text \<open>
  The bytes that a \<^verbatim>\<open>writeBuffer\<close> call takes from the source, and its effect on the
  contents of the destination.
\<close>

definition sliceOf :: "'a list \<Rightarrow> write_buffer \<Rightarrow> 'a list" where
  "sliceOf src w = take (wb_size w) (drop (wb_dataOffset w) src)"

definition performWrite :: "'a list \<Rightarrow> write_buffer \<Rightarrow> 'a list \<Rightarrow> 'a list" where
  "performWrite src w dst =
     take (wb_bufferOffset w) dst @ sliceOf src w @ drop (wb_bufferOffset w + wb_size w) dst"

definition performWrites :: "'a list \<Rightarrow> write_buffer list \<Rightarrow> 'a list \<Rightarrow> 'a list" where
  "performWrites src ws dst = fold (performWrite src) ws dst"

text \<open>
  A sequence of transfers is contiguous from byte \<open>p\<close>: each is non-empty, starts in source
  and destination where the one before it ended, and the first starts at \<open>p\<close>.
\<close>

fun contiguousFrom :: "nat \<Rightarrow> write_buffer list \<Rightarrow> bool" where
  "contiguousFrom p [] = True"
| "contiguousFrom p (w # ws) =
     (wb_bufferOffset w = p \<and> wb_dataOffset w = p \<and> 0 < wb_size w
      \<and> contiguousFrom (p + wb_size w) ws)"

text \<open>The average after the same sample has been fed \<open>n\<close> times to a fresh average.\<close>

definition feedSame :: "rat \<Rightarrow> nat \<Rightarrow> rat option" where
  "feedSame sample n = ((\<lambda>avg. updateAvg avg sample) ^^ n) None"

definition boundBytes :: "(nat \<Rightarrow> 'a list) \<Rightarrow> render_command \<Rightarrow> 'a list option" where
  "boundBytes memory cmd = map_option (readRange memory) (boundRange cmd)"

text \<open>
  \<^verbatim>\<open>recordRenderPass\<close> as the closure held in \<open>c\<close> runs it on a fresh encoder while the
  settings are \<open>s\<close>.
\<close>

definition directCommands :: "settings \<Rightarrow> configuration \<Rightarrow> render_command list" where
  "directCommands s c =
     recordRenderPass s (numTriangles_const c) (bindGroups c) (dynamicBindGroup c)
       (timeBindGroup c) []"

text \<open>The values of \<^verbatim>\<open>valueAsNumber\<close> that are negative or not finite.\<close>

definition negativeOrNonFinite :: "number \<Rightarrow> bool" where
  "negativeOrNonFinite v =
     (case v of Finite x \<Rightarrow> x < 0 | NaN \<Rightarrow> True | PosInfinity \<Rightarrow> True | NegInfinity \<Rightarrow> True)"

section \<open>Example values\<close>

definition exampleDevice :: device where
  "exampleDevice = \<lparr>createBufferThrows = (\<lambda>sz. False), nextBufferId = 0\<rparr>"

definition exampleSettings :: settings where
  "exampleSettings = \<lparr>numTriangles = Finite 2, renderBundles = False, dynamicOffsets = False\<rparr>"

definition emptySettings :: settings where
  "emptySettings = \<lparr>numTriangles = Finite 0, renderBundles = False, dynamicOffsets = False\<rparr>"

text \<open>Two sources of random numbers: always 0.5, and always \<open>1 - 2^-30\<close>.\<close>

definition halves :: "nat \<Rightarrow> rat" where
  "halves k = 1 / 2"

definition nearOne :: "nat \<Rightarrow> rat" where
  "nearOne k = 1 - 1 / 2 ^ 30"

definition exampleConfiguration :: configuration where
  "exampleConfiguration =
     configureWith exampleSettings halves (bufferFor exampleDevice 2)
       (replicate (2 * alignedUniformFloats) 0) (replicate 2 None)"

definition exampleApp :: app where
  "exampleApp =
     \<lparr>settings = exampleSettings, doDraw_var = exampleConfiguration,
      previousFrameTimestamp = None, jsTimeAvg = None, frameTimeAvg = None\<rparr>"

text \<open>
  The state after a change of the count to \<open>-1\<close> and then a click on the
  \<^verbatim>\<open>dynamicOffsets\<close> box.
\<close>

definition staleApp :: app where
  "staleApp =
     fst (dynamicOffsetsInput exampleDevice halves True
            (fst (numTrianglesChange exampleDevice halves (Finite (- 1)) exampleApp)))"

section \<open>Properties of the rounding\<close>

lemma rhe_cases:
  "round_half_even x = \<lfloor>x\<rfloor> \<or> round_half_even x = \<lfloor>x\<rfloor> + 1"
  by (simp add: round_half_even_def Let_def)

lemma rhe_of_int [simp]: "round_half_even (of_int n) = n"
  by (simp add: round_half_even_def)

lemma rhe_err: "\<bar>of_int (round_half_even x) - x\<bar> \<le> 1/2"
proof -
  have "of_int \<lfloor>x\<rfloor> \<le> x" "x < of_int \<lfloor>x\<rfloor> + 1" by linarith+
  then show ?thesis
    unfolding round_half_even_def Let_def by (auto split: if_splits)
qed

lemma rhe_mono: assumes "x \<le> y" shows "round_half_even x \<le> round_half_even y"
proof (cases "\<lfloor>x\<rfloor> = \<lfloor>y\<rfloor>")
  case True
  define n where "n = \<lfloor>x\<rfloor>"
  define dx where "dx = x - of_int n"
  define dy where "dy = y - of_int n"
  have "dx \<le> dy" using assms by (simp add: dx_def dy_def)
  moreover have "round_half_even x = (if dx < 1/2 then n else if 1/2 < dx then n + 1 else if even n then n else n + 1)"
    by (simp add: round_half_even_def Let_def n_def dx_def)
  moreover have "round_half_even y = (if dy < 1/2 then n else if 1/2 < dy then n + 1 else if even n then n else n + 1)"
    using True by (simp add: round_half_even_def Let_def n_def dy_def)
  ultimately show ?thesis by (simp split: if_splits)
next
  case False
  with assms have lt: "\<lfloor>x\<rfloor> + 1 \<le> \<lfloor>y\<rfloor>" using floor_mono [OF assms] by linarith
  have "round_half_even x \<le> \<lfloor>x\<rfloor> + 1" using rhe_cases [of x] by linarith
  moreover have "\<lfloor>y\<rfloor> \<le> round_half_even y" using rhe_cases [of y] by linarith
  ultimately show ?thesis using lt by linarith
qed

lemma rhe_minus: "round_half_even (- x) = - round_half_even x"
proof (cases "x = of_int \<lfloor>x\<rfloor>")
  case True
  then obtain n where n: "x = of_int n" ..
  then have "- x = of_int (- n)" by simp
  then have "round_half_even (- x) = - n" by (simp only: rhe_of_int)
  then show ?thesis using n by simp
next
  case False
  define n where "n = \<lfloor>x\<rfloor>"
  define d where "d = x - of_int n"
  have d: "0 < d" "d < 1" using False unfolding d_def n_def by linarith+
  have "\<lfloor>- x\<rfloor> = - n - 1" unfolding n_def using False by linarith
  then have a: "round_half_even (- x) = (if 1 - d < 1/2 then - n - 1 else if 1/2 < 1 - d then - n else if even (- n - 1) then - n - 1 else - n)"
    by (simp add: round_half_even_def Let_def d_def)
  have b: "round_half_even x = (if d < 1/2 then n else if 1/2 < d then n + 1 else if even n then n else n + 1)"
    by (simp add: round_half_even_def Let_def n_def d_def)
  show ?thesis unfolding a b using d by (auto split: if_splits)
qed


lemma quotient_of_pos:
  assumes "0 < y" "quotient_of y = (a, b)"
  shows "0 < a" "0 < b" "y = of_int a / of_int b"
proof -
  show b: "0 < b" using assms(2) by (rule quotient_of_denom_pos)
  show y: "y = of_int a / of_int b" using assms(2) by (rule quotient_of_div)
  show "0 < a" using assms(1) b unfolding y by (simp add: zero_less_divide_iff)
qed

lemma bitlen_powi:
  assumes "0 < (a::int)"
  shows "2 powi (bitlen a - 1) \<le> (of_int a :: rat)" "(of_int a :: rat) < 2 powi bitlen a"
proof -
  from bitlen_bounds [OF assms] have lo: "2 ^ nat (bitlen a - 1) \<le> a" and hi: "a < 2 ^ nat (bitlen a)"
    by simp_all
  have ge1: "1 \<le> bitlen a" using assms bitlen_eq_zero_iff [of a] bitlen_nonneg [of a] by linarith
  have "(2::rat) powi (bitlen a - 1) = 2 ^ nat (bitlen a - 1)" using ge1 by (simp add: power_int_nonneg_exp)
  also have "\<dots> = of_int (2 ^ nat (bitlen a - 1))" by simp
  also have "\<dots> \<le> of_int a" using lo by (simp only: of_int_le_iff)
  finally show "2 powi (bitlen a - 1) \<le> (of_int a :: rat)" .
  have "(of_int a :: rat) < of_int (2 ^ nat (bitlen a))" using hi by (simp only: of_int_less_iff)
  also have "\<dots> = 2 ^ nat (bitlen a)" by simp
  also have "\<dots> = 2 powi bitlen a" using ge1 by (simp add: power_int_nonneg_exp)
  finally show "(of_int a :: rat) < 2 powi bitlen a" .
qed

lemma ilog2_bounds_pos:
  assumes "0 < y"
  shows "2 powi ilog2 y \<le> y" "y < 2 powi (ilog2 y + 1)"
proof -
  obtain a b where q: "quotient_of y = (a, b)" by (cases "quotient_of y")
  note ab = quotient_of_pos [OF assms q]
  define k where "k = bitlen a - bitlen b"
  have abs: "\<bar>y\<bar> = y" using assms by simp
  have il: "ilog2 y = (if 2 powi k \<le> y then k else k - 1)"
    by (simp add: ilog2_def abs q k_def)
  note A = bitlen_powi [OF ab(1)] and B = bitlen_powi [OF ab(2)]
  have bpos: "(0::rat) < of_int b" using ab(2) by simp
  have "2 powi (k - 1) = (2::rat) powi (bitlen a - 1) / 2 powi bitlen b"
    by (simp add: k_def power_int_diff)
  also have "\<dots> < of_int a / of_int b"
    using A(1) B(2) bpos by (intro frac_less2) simp_all
  finally have lo: "2 powi (k - 1) < y" using ab(3) by simp
  have "of_int a / of_int b < (2::rat) powi bitlen a / 2 powi (bitlen b - 1)"
    using A(2) B(1) ab(1) by (intro frac_less) simp_all
  also have "\<dots> = 2 powi (k + 1)"
    by (simp add: k_def power_int_diff power_int_add)
  finally have hi: "y < 2 powi (k + 1)" using ab(3) by simp
  show "2 powi ilog2 y \<le> y" using lo by (simp add: il)
  show "y < 2 powi (ilog2 y + 1)" using hi by (auto simp add: il not_le)
qed

lemma ilog2_abs: "ilog2 \<bar>x\<bar> = ilog2 x"
  by (simp add: ilog2_def)

lemma ilog2_minus: "ilog2 (- x) = ilog2 x"
  by (simp add: ilog2_def)

lemma ilog2_bounds:
  assumes "x \<noteq> 0"
  shows "2 powi ilog2 x \<le> \<bar>x\<bar>" "\<bar>x\<bar> < 2 powi (ilog2 x + 1)"
  using ilog2_bounds_pos [of "\<bar>x\<bar>"] assms by (simp_all add: ilog2_abs)

lemma powi2_less_cancel: "(2::rat) powi a < 2 powi b \<Longrightarrow> a < b"
  by (metis not_less power_int_increasing one_le_numeral)

lemma powi2_le: "a \<le> b \<Longrightarrow> (2::rat) powi a \<le> 2 powi b"
  by (rule power_int_increasing) simp_all

lemma ilog2_mono:
  assumes "x \<noteq> 0" "\<bar>x\<bar> \<le> \<bar>y\<bar>"
  shows "ilog2 x \<le> ilog2 y"
proof -
  have nz: "y \<noteq> 0" using assms by auto
  have "(2::rat) powi ilog2 x < 2 powi (ilog2 y + 1)"
    using ilog2_bounds(1) [OF assms(1)] ilog2_bounds(2) [OF nz] assms(2) by linarith
  then have "ilog2 x < ilog2 y + 1" by (rule powi2_less_cancel)
  then show ?thesis by simp
qed


lemma rhe_0 [simp]: "round_half_even 0 = 0"
  using rhe_of_int [of 0] by simp

lemma round_to_0 [simp]: "round_to p emin 0 = 0"
  by (simp add: round_to_def)

lemma round_to_minus: "round_to p emin (- x) = - round_to p emin x"
  by (simp add: round_to_def ilog2_minus rhe_minus Let_def)

lemma rhe_le: "x \<le> of_int k \<Longrightarrow> round_half_even x \<le> k"
  using rhe_mono [of x "of_int k"] by simp

lemma rhe_ge: "of_int k \<le> x \<Longrightarrow> k \<le> round_half_even x"
  using rhe_mono [of "of_int k" x] by simp

lemma round_to_nonneg: "0 \<le> x \<Longrightarrow> 0 \<le> round_to p emin x"
proof -
  assume x: "0 \<le> x"
  define q :: rat where "q = 2 powi (max (ilog2 x) emin - int p + 1)"
  have q: "0 < q" by (simp add: q_def)
  have "of_int 0 \<le> x / q" using x q by simp
  then have "0 \<le> round_half_even (x / q)" by (rule rhe_ge)
  then show ?thesis using q by (simp add: round_to_def q_def [symmetric] Let_def)
qed

lemma round_to_mono_pos:
  assumes "0 < x" "x \<le> y" "0 < p"
  shows "round_to p emin x \<le> round_to p emin y"
proof -
  define ex where "ex = max (ilog2 x) emin"
  define ey where "ey = max (ilog2 y) emin"
  define qx :: rat where "qx = 2 powi (ex - int p + 1)"
  define qy :: rat where "qy = 2 powi (ey - int p + 1)"
  have rx: "round_to p emin x = of_int (round_half_even (x / qx)) * qx"
    by (simp add: round_to_def qx_def ex_def Let_def)
  have ry: "round_to p emin y = of_int (round_half_even (y / qy)) * qy"
    by (simp add: round_to_def qy_def ey_def Let_def)
  have qpos: "0 < qx" "0 < qy" by (simp_all add: qx_def qy_def)
  have ypos: "0 < y" using assms by linarith
  have "ilog2 x \<le> ilog2 y" using assms ypos by (intro ilog2_mono) simp_all
  then have le: "ex \<le> ey" by (simp add: ex_def ey_def)
  show ?thesis
  proof (cases "ex = ey")
    case True
    then have "qx = qy" by (simp add: qx_def qy_def)
    moreover have "x / qy \<le> y / qy" using assms(2) qpos by (simp add: divide_right_mono)
    ultimately show ?thesis unfolding rx ry using qpos rhe_mono [of "x / qy" "y / qy"]
      by (simp add: mult_right_mono)
  next
    case False
    with le have lt: "ex < ey" by simp
    then have ey: "ey = ilog2 y" by (auto simp: ex_def ey_def max_def split: if_splits)
    have "x < 2 powi (ilog2 x + 1)" using ilog2_bounds(2) [of x] assms(1) by simp
    also have "\<dots> \<le> 2 powi (ex + 1)" by (rule powi2_le) (simp add: ex_def)
    finally have xb: "x < 2 powi (ex + 1)" .
    have "(2::rat) powi (ex + 1) = 2 powi (int p) * qx"
      by (simp add: qx_def power_int_add [symmetric] del: power_int_of_nat)
    then have e1: "(2::rat) powi (ex + 1) = of_int (2 ^ p) * qx" by simp
    have "x / qx \<le> of_int (2 ^ p)" using xb qpos(1) unfolding e1 by (simp add: pos_divide_le_eq)
    then have "round_half_even (x / qx) \<le> 2 ^ p" by (rule rhe_le)
    then have "(of_int (round_half_even (x / qx)) :: rat) \<le> of_int (2 ^ p)" by (simp only: of_int_le_iff)
    then have "round_to p emin x \<le> of_int (2 ^ p) * qx" unfolding rx using qpos(1) by (simp add: mult_right_mono)
    then have A: "round_to p emin x \<le> 2 powi (ex + 1)" by (simp only: e1)
    have B: "(2::rat) powi (ex + 1) \<le> 2 powi ey" by (rule powi2_le) (use lt in simp)
    have yb: "2 powi ey \<le> y" using ilog2_bounds(1) [of y] ypos by (simp add: ey)
    have "(2::rat) powi ey = 2 powi (int (p - 1)) * qy"
      using assms(3) by (simp add: qy_def power_int_add [symmetric] of_nat_diff del: power_int_of_nat)
    then have e2: "(2::rat) powi ey = of_int (2 ^ (p - 1)) * qy" by simp
    have "of_int (2 ^ (p - 1)) \<le> y / qy" using yb qpos(2) unfolding e2 by (simp add: pos_le_divide_eq)
    then have "2 ^ (p - 1) \<le> round_half_even (y / qy)" by (rule rhe_ge)
    then have "(of_int (2 ^ (p - 1)) :: rat) \<le> of_int (round_half_even (y / qy))" by (simp only: of_int_le_iff)
    then have "of_int (2 ^ (p - 1)) * qy \<le> round_to p emin y" unfolding ry using qpos(2) by (simp add: mult_right_mono)
    then have C: "2 powi ey \<le> round_to p emin y" by (simp only: e2)
    show ?thesis using A B C by linarith
  qed
qed

lemma round_to_mono:
  assumes "x \<le> y" "0 < p"
  shows "round_to p emin x \<le> round_to p emin y"
proof -
  consider "0 < x" | "x \<le> 0" "0 \<le> y" | "y < 0" by linarith
  then show ?thesis
  proof cases
    case 1
    then show ?thesis using assms by (rule round_to_mono_pos)
  next
    case 2
    have "0 \<le> round_to p emin (- x)" using 2(1) by (intro round_to_nonneg) simp
    then have "round_to p emin x \<le> 0" by (simp add: round_to_minus)
    moreover have "0 \<le> round_to p emin y" using 2(2) by (rule round_to_nonneg)
    ultimately show ?thesis by linarith
  next
    case 3
    have "round_to p emin (- y) \<le> round_to p emin (- x)"
      using 3 assms by (intro round_to_mono_pos) simp_all
    then show ?thesis by (simp add: round_to_minus)
  qed
qed

lemma round_to_error:
  assumes "x \<noteq> 0" "emin \<le> ilog2 x"
  shows "\<bar>round_to p emin x - x\<bar> \<le> 2 powi (- int p) * \<bar>x\<bar>"
proof -
  define q :: rat where "q = 2 powi (ilog2 x - int p + 1)"
  have q: "0 < q" by (simp add: q_def)
  have r: "round_to p emin x = of_int (round_half_even (x / q)) * q"
    using assms(2) by (simp add: round_to_def q_def Let_def max_def)
  have "round_to p emin x - x = (of_int (round_half_even (x / q)) - x / q) * q"
    using q by (simp add: r algebra_simps)
  then have "\<bar>round_to p emin x - x\<bar> = \<bar>of_int (round_half_even (x / q)) - x / q\<bar> * q"
    using q by (simp add: abs_mult)
  also have "\<dots> \<le> (1/2) * q" using rhe_err [of "x / q"] q by (intro mult_right_mono) simp_all
  also have "(1/2) * q = 2 powi (- int p) * 2 powi ilog2 x"
    by (simp add: q_def power_int_add power_int_diff power_int_minus field_simps)
  also have "\<dots> \<le> 2 powi (- int p) * \<bar>x\<bar>"
    using ilog2_bounds(1) [OF assms(1)] by (intro mult_left_mono) simp_all
  finally show ?thesis .
qed

lemma round_to_exact:
  assumes "x = of_int m * 2 powi k" "\<bar>m\<bar> < 2 ^ p" "emin - int p + 1 \<le> k"
  shows "round_to p emin x = x"
proof (cases "m = 0")
  case True
  then show ?thesis using assms(1) by simp
next
  case False
  then have nz: "x \<noteq> 0" using assms(1) by simp
  define j where "j = max (ilog2 x) emin - int p + 1"
  have "\<bar>x\<bar> = of_int \<bar>m\<bar> * 2 powi k" by (simp add: assms(1) abs_mult)
  also have "\<dots> < of_int (2 ^ p) * 2 powi k"
    using assms(2) by (intro mult_strict_right_mono) (simp_all only: of_int_less_iff zero_less_power_int zero_less_numeral)
  also have "\<dots> = 2 powi (int p + k)" by (simp add: power_int_add)
  finally have "2 powi ilog2 x < (2::rat) powi (int p + k)" using ilog2_bounds(1) [OF nz] by linarith
  then have "ilog2 x < int p + k" by (rule powi2_less_cancel)
  then have jk: "j \<le> k" using assms(3) by (simp add: j_def)
  have "x / 2 powi j = of_int m * 2 powi (k - j)" by (simp add: assms(1) power_int_diff)
  also have "\<dots> = of_int (m * 2 ^ nat (k - j))" using jk by (simp add: power_int_nonneg_exp)
  finally have "of_int (round_half_even (x / 2 powi j)) = x / 2 powi j" by (simp only: rhe_of_int)
  then show ?thesis by (simp add: round_to_def j_def [symmetric] Let_def)
qed

lemma ilog2_ge:
  assumes "2 powi e \<le> \<bar>x\<bar>"
  shows "e \<le> ilog2 x"
proof -
  have nz: "x \<noteq> 0"
  proof
    assume "x = 0"
    then have "2 powi e \<le> (0::rat)" using assms(1) by simp
    moreover have "0 < (2::rat) powi e" by simp
    ultimately show False by linarith
  qed
  have "(2::rat) powi e < 2 powi (ilog2 x + 1)" using assms ilog2_bounds(2) [OF nz] by linarith
  then have "e < ilog2 x + 1" by (rule powi2_less_cancel)
  then show ?thesis by simp
qed

lemma fl64_0 [simp]: "fl64 0 = 0"
  by (simp add: fl64_def)

lemma fround_0 [simp]: "fround 0 = 0"
  by (simp add: fround_def)

lemma fl64_mono: "x \<le> y \<Longrightarrow> fl64 x \<le> fl64 y"
  unfolding fl64_def by (rule round_to_mono) simp_all

lemma fround_mono: "x \<le> y \<Longrightarrow> fround x \<le> fround y"
  unfolding fround_def by (rule round_to_mono) simp_all

lemma fl64_minus: "fl64 (- x) = - fl64 x"
  by (simp add: fl64_def round_to_minus)

lemma fl64_error:
  assumes "1 / 2 ^ 1022 \<le> \<bar>x\<bar>"
  shows "\<bar>fl64 x - x\<bar> \<le> \<bar>x\<bar> / 2 ^ 53"
proof -
  have "(2::rat) powi (- 1022) = 1 / 2 ^ 1022" by (simp add: power_int_minus_divide)
  then have "2 powi (- 1022) \<le> \<bar>x\<bar>" using assms by simp
  then have e: "- 1022 \<le> ilog2 x" by (rule ilog2_ge)
  have "(0::rat) < 1 / 2 ^ 1022" by simp
  then have "0 < \<bar>x\<bar>" using assms by linarith
  then have nz: "x \<noteq> 0" by simp
  have "\<bar>fl64 x - x\<bar> \<le> 2 powi (- int 53) * \<bar>x\<bar>"
    unfolding fl64_def using nz e by (rule round_to_error)
  also have "2 powi (- int 53) * \<bar>x\<bar> = \<bar>x\<bar> / 2 ^ 53" by (simp add: power_int_minus_divide)
  finally show ?thesis .
qed

lemma fl64_of_nat:
  assumes "n < 2 ^ 53"
  shows "fl64 (of_nat n) = of_nat n"
  unfolding fl64_def
proof (rule round_to_exact [where m = "int n" and k = 0])
  show "(of_nat n :: rat) = of_int (int n) * 2 powi 0" by simp
  have "int n < int (2 ^ 53)" using assms by (simp only: of_nat_less_iff)
  then show "\<bar>int n\<bar> < 2 ^ 53" by simp
  show "- 1022 - int 53 + 1 \<le> 0" by simp
qed

lemma to_number_finite:
  assumes "fl64 x = y" "\<bar>y\<bar> \<le> 2 ^ 53"
  shows "to_number x = Finite y"
proof -
  define M :: rat where "M = 2 ^ 1024"
  have "(2::rat) ^ 53 < 2 ^ 1024" by (rule power_strict_increasing) simp_all
  then have "\<bar>y\<bar> < M" using assms(2) unfolding M_def by linarith
  then have "\<not> M \<le> y" "\<not> y \<le> - M" by linarith+
  then show ?thesis unfolding to_number_def Let_def assms(1) M_def by (simp only: if_False)
qed

lemma to_number_of_nat:
  assumes "n < 2 ^ 53"
  shows "to_number (of_nat n) = Finite (of_nat n)"
proof (rule to_number_finite [OF fl64_of_nat [OF assms]])
  have "(of_nat n :: rat) < of_nat (2 ^ 53)" using assms by (simp only: of_nat_less_iff)
  then show "\<bar>of_nat n :: rat\<bar> \<le> 2 ^ 53" by simp
qed

section \<open>The layout constants\<close>

lemma uniformBytes_eq: "uniformBytes = 20"
  by (simp add: uniformBytes_def BYTES_PER_ELEMENT_def)

lemma alignedUniformBytes_eq: "alignedUniformBytes = 256"
proof -
  have "\<lceil>(20::rat) / 256\<rceil> = 1" by (simp add: ceiling_eq_iff)
  then show ?thesis by (simp add: alignedUniformBytes_def uniformBytes_eq)
qed

lemma alignedUniformFloats_eq: "alignedUniformFloats = 64"
  by (simp add: alignedUniformFloats_def alignedUniformBytes_eq BYTES_PER_ELEMENT_def)

section \<open>When \<^verbatim>\<open>configure\<close> returns and when it throws\<close>

lemma size_argument:
  assumes "n < 2 ^ 32"
  shows "num_plus (num_times (Finite (of_nat n)) (Finite (of_nat alignedUniformBytes)))
           (Finite (of_nat BYTES_PER_ELEMENT))
         = Finite (of_nat (n * alignedUniformBytes + BYTES_PER_ELEMENT))"
proof -
  have "n * 256 < 2 ^ 32 * 256" using assms by simp
  then have a: "n * 256 < 2 ^ 53" by simp
  have "n * 256 + 4 < 2 ^ 32 * 256 + 4" using assms by simp
  then have b: "n * 256 + 4 < 2 ^ 53" by simp
  have "num_times (Finite (of_nat n)) (Finite (of_nat alignedUniformBytes)) = to_number (of_nat (n * 256))"
    by (simp add: alignedUniformBytes_eq)
  also have "\<dots> = Finite (of_nat (n * 256))" using a by (rule to_number_of_nat)
  finally have "num_plus (num_times (Finite (of_nat n)) (Finite (of_nat alignedUniformBytes)))
           (Finite (of_nat BYTES_PER_ELEMENT)) = to_number (of_nat (n * 256 + 4))"
    by (simp add: BYTES_PER_ELEMENT_def)
  also have "\<dots> = Finite (of_nat (n * 256 + 4))" using b by (rule to_number_of_nat)
  finally show ?thesis by (simp add: alignedUniformBytes_eq BYTES_PER_ELEMENT_def)
qed

lemma newFloat32Array_ok:
  assumes "n < 2 ^ 32"
  shows "newFloat32Array (num_times (Finite (of_nat n)) (Finite (of_nat alignedUniformFloats)))
         = Inr (replicate (n * alignedUniformFloats) 0)"
proof -
  have "n * 64 < 2 ^ 32 * 64" using assms by simp
  then have a: "n * 64 < 2 ^ 53" by simp
  have "num_times (Finite (of_nat n)) (Finite (of_nat alignedUniformFloats)) = to_number (of_nat (n * 64))"
    by (simp add: alignedUniformFloats_eq)
  also have "\<dots> = Finite (of_nat (n * 64))" using a by (rule to_number_of_nat)
  finally have e: "num_times (Finite (of_nat n)) (Finite (of_nat alignedUniformFloats)) = Finite (of_nat (n * 64))" .
  have "\<lfloor>rat_of_nat (n * 64)\<rfloor> = int (n * 64)" by (rule floor_of_nat)
  then have t: "trunc (of_nat (n * 64)) = int (n * 64)" unfolding trunc_def by (simp del: of_nat_mult)
  have "int (n * 64) * 4 < 2 ^ 32 * 64 * 4" using assms by simp
  then have "\<not> 2 ^ 53 - 1 < int (n * 64) * int BYTES_PER_ELEMENT" by (simp add: BYTES_PER_ELEMENT_def)
  then show ?thesis unfolding e newFloat32Array_def
    by (simp add: t Let_def alignedUniformFloats_eq del: of_nat_mult)
qed

lemma newArray_ok:
  assumes "n < 2 ^ 32"
  shows "newArray (Finite (of_nat n)) = Inr (replicate n None)"
proof -
  have "(of_nat n :: rat) < of_nat (2 ^ 32)" using assms by (simp only: of_nat_less_iff)
  then show ?thesis by (simp add: newArray_def)
qed

lemma newArray_Inr:
  assumes "newArray v = Inr slots"
  shows "\<exists>n. n < 2 ^ 32 \<and> v = Finite (of_nat n) \<and> slots = replicate n None"
proof (cases v)
  case (Finite x)
  with assms have x: "x = of_int \<lfloor>x\<rfloor>" "0 \<le> x" "x < 2 ^ 32" and s: "slots = replicate (nat \<lfloor>x\<rfloor>) None"
    by (auto simp: newArray_def split: if_splits)
  define n where "n = nat \<lfloor>x\<rfloor>"
  have fl: "0 \<le> \<lfloor>x\<rfloor>" using x(2) by simp
  have xn: "x = of_nat n" using x(1) fl unfolding n_def by (metis of_int_of_nat_eq int_nat_eq)
  have "(of_nat n :: rat) < of_nat (2 ^ 32)" using x(3) xn by simp
  then have "n < 2 ^ 32" by (simp only: of_nat_less_iff)
  then show ?thesis using xn s Finite unfolding n_def by blast
qed (use assms in \<open>simp_all add: newArray_def\<close>)

lemma configure_count:
  assumes "n < 2 ^ 32" "numTriangles s = Finite (of_nat n)"
  shows "configure dev mathRandom s =
           (if createBufferThrows dev (Finite (of_nat (n * alignedUniformBytes + BYTES_PER_ELEMENT)))
            then Inl DeviceError
            else Inr (configureWith s mathRandom (bufferFor dev n)
                        (replicate (n * alignedUniformFloats) 0) (replicate n None)))"
  unfolding configure_def assms(2) size_argument [OF assms(1)] newFloat32Array_ok [OF assms(1)]
    newArray_ok [OF assms(1)] createBuffer_def bufferFor_def
  by simp

lemma configure_Inr:
  assumes "configure dev mathRandom s = Inr c"
  shows "\<exists>n. n < 2 ^ 32 \<and> numTriangles s = Finite (of_nat n)
           \<and> \<not> createBufferThrows dev (Finite (of_nat (n * alignedUniformBytes + BYTES_PER_ELEMENT)))
           \<and> c = configureWith s mathRandom (bufferFor dev n)
                   (replicate (n * alignedUniformFloats) 0) (replicate n None)"
proof -
  from assms obtain slots :: "bind_group option list" where "newArray (numTriangles s) = Inr slots"
    by (auto simp: configure_def split: sum.splits)
  then obtain n where n: "n < 2 ^ 32" "numTriangles s = Finite (of_nat n)"
    using newArray_Inr by blast
  show ?thesis using assms n unfolding configure_count [OF n]
    by (auto split: if_splits)
qed

lemma newArray_rejects:
  assumes "v = NaN \<or> v = PosInfinity \<or> v = NegInfinity \<or> (\<exists>x. v = Finite x \<and> x < 0)"
  shows "(newArray v :: error + 'a option list) = Inl RangeError"
  using assms by (auto simp: newArray_def)

lemma configure_rejects:
  assumes "numTriangles s = NaN \<or> numTriangles s = PosInfinity \<or> numTriangles s = NegInfinity
           \<or> (\<exists>x. numTriangles s = Finite x \<and> x < 0)"
  shows "\<exists>e. configure dev mathRandom s = Inl e"
  unfolding configure_def newArray_rejects [OF assms]
  by (simp split: sum.splits)

section \<open>The first loop of \<^verbatim>\<open>configure\<close>\<close>

declare fillLoop.simps [simp del]

lemma fillLoop_fold:
  "fillLoop stride mathRandom buf n i st = fold (fillStep stride mathRandom buf) [i..<n] st"
proof (induction stride mathRandom buf n i st rule: fillLoop.induct)
  case (1 stride mathRandom buf n i st)
  show ?case
  proof (cases "i < n")
    case True
    with 1 show ?thesis by (subst fillLoop.simps) (simp add: upt_rec [of i n])
  next
    case False
    then show ?thesis by (subst fillLoop.simps) simp
  qed
qed

lemma fillInstances_fold:
  "fillInstances stride mathRandom buf n st = fold (fillStep stride mathRandom buf) [0..<n] st"
  by (simp add: fillInstances_def fillLoop_fold)

lemma fillInstances_Suc:
  "fillInstances stride mathRandom buf (Suc n) st =
     fillStep stride mathRandom buf n (fillInstances stride mathRandom buf n st)"
  by (simp add: fillInstances_fold)

lemma fillInstances_0: "fillInstances stride mathRandom buf 0 st = st"
  by (simp add: fillInstances_fold)

lemma length_writeInstance [simp]: "length (writeInstance stride mathRandom i d) = length d"
  by (simp add: writeInstance_def)

lemma length_fillInstances:
  "length (fst (fillInstances stride mathRandom buf n st)) = length (fst st)"
  by (induction n) (simp_all add: fillInstances_0 fillInstances_Suc fillStep_def)

lemma length_groups_fillInstances:
  assumes "n \<le> length (snd st)"
  shows "length (snd (fillInstances stride mathRandom buf n st)) = length (snd st)"
  using assms
  by (induction n) (simp_all add: fillInstances_0 fillInstances_Suc fillStep_def assign_def)

lemma groups_fillInstances:
  assumes "i < n" "n \<le> length (snd st)"
  shows "snd (fillInstances stride mathRandom buf n st) ! i = Some (staticBindGroup buf i)"
  using assms
proof (induction n)
  case 0
  then show ?case by simp
next
  case (Suc n)
  have len: "length (snd (fillInstances stride mathRandom buf n st)) = length (snd st)"
    using Suc.prems(2) by (intro length_groups_fillInstances) simp
  show ?case
  proof (cases "i = n")
    case True
    then show ?thesis using Suc.prems
      by (simp add: fillInstances_Suc fillStep_def assign_def len)
  next
    case False
    then have "i < n" using Suc.prems by simp
    then show ?thesis using Suc False
      by (simp add: fillInstances_Suc fillStep_def assign_def len)
  qed
qed

lemma writeInstance_other:
  assumes "j < stride * i \<or> stride * i + 5 \<le> j"
  shows "writeInstance stride mathRandom i d ! j = d ! j"
  using assms by (auto simp: writeInstance_def)

lemma writeInstance_own:
  assumes "stride * i + 4 < length d"
  shows "writeInstance stride mathRandom i d ! (stride * i) = scaleOf (mathRandom (5 * i))"
    and "writeInstance stride mathRandom i d ! (stride * i + 1) = offsetOf (mathRandom (5 * i + 1))"
    and "writeInstance stride mathRandom i d ! (stride * i + 2) = offsetOf (mathRandom (5 * i + 2))"
    and "writeInstance stride mathRandom i d ! (stride * i + 3) = scalarOf (mathRandom (5 * i + 3))"
    and "writeInstance stride mathRandom i d ! (stride * i + 4) = scalarOffsetOf (mathRandom (5 * i + 4))"
  using assms by (simp_all add: writeInstance_def)

lemma slot_index_less:
  assumes "5 \<le> stride" "i < n" "k < 5"
  shows "stride * i + k < stride * (n::nat)"
proof -
  have "stride * i + k < stride * i + stride" using assms by simp
  also have "\<dots> = stride * Suc i" by simp
  also have "\<dots> \<le> stride * n" using assms(2) by (intro mult_le_mono2) simp
  finally show ?thesis .
qed

text \<open>The value that the loop leaves at element \<open>k\<close> of slot \<open>i\<close>.\<close>

lemma data_fillInstances:
  assumes "5 \<le> stride" "i < n" "stride * n \<le> length (fst st)"
  shows "fst (fillInstances stride mathRandom buf n st) ! (stride * i) = scaleOf (mathRandom (5 * i))
       \<and> fst (fillInstances stride mathRandom buf n st) ! (stride * i + 1) = offsetOf (mathRandom (5 * i + 1))
       \<and> fst (fillInstances stride mathRandom buf n st) ! (stride * i + 2) = offsetOf (mathRandom (5 * i + 2))
       \<and> fst (fillInstances stride mathRandom buf n st) ! (stride * i + 3) = scalarOf (mathRandom (5 * i + 3))
       \<and> fst (fillInstances stride mathRandom buf n st) ! (stride * i + 4) = scalarOffsetOf (mathRandom (5 * i + 4))"
  using assms(2,3)
proof (induction n)
  case 0
  then show ?case by simp
next
  case (Suc n)
  define prev where "prev = fst (fillInstances stride mathRandom buf n st)"
  have step: "fst (fillInstances stride mathRandom buf (Suc n) st) = writeInstance stride mathRandom n prev"
    by (simp add: fillInstances_Suc fillStep_def prev_def)
  have len: "length prev = length (fst st)" by (simp add: prev_def length_fillInstances)
  have room: "stride * n + stride \<le> length (fst st)" using Suc.prems(2) by simp
  show ?case
  proof (cases "i = n")
    case True
    have "stride * n + 4 < length prev" using room assms(1) len by linarith
    from writeInstance_own [OF this, of mathRandom] show ?thesis
      unfolding step True by simp
  next
    case False
    then have lt: "i < n" using Suc.prems(1) by simp
    have "stride * n \<le> length (fst st)" using room by simp
    note IH = Suc.IH [OF lt this, folded prev_def]
    have other: "writeInstance stride mathRandom n prev ! (stride * i + k) = prev ! (stride * i + k)"
      if "k < 5" for k
      by (rule writeInstance_other) (use slot_index_less [OF assms(1) lt that] in simp)
    show ?thesis unfolding step
      using IH other [of 0] other [of 1] other [of 2] other [of 3] other [of 4] by simp
  qed
qed

section \<open>Values of the literals and the ranges of the five fields\<close>

lemma fl64_literals:
  "fl64 (2 / 10) = 3602879701896397 / 18014398509481984"
  "fl64 (9 / 10) = 8106479329266893 / 9007199254740992"
  "fl64 (5 / 10) = 1 / 2"
  "fl64 (15 / 10) = 3 / 2"
  by code_simp+

lemma fl64_fixed:
  "fl64 (3602879701896397 / 18014398509481984) = 3602879701896397 / 18014398509481984"
  "fl64 (3602879701896397 / 9007199254740992) = 3602879701896397 / 9007199254740992"
  "fl64 (8106479329266893 / 9007199254740992) = 8106479329266893 / 9007199254740992"
  "fl64 (8106479329266893 / 9007199254740992 * 2) = 8106479329266893 / 4503599627370496"
  "fl64 (1 / 2) = 1 / 2"
  "fl64 (3 / 2) = 3 / 2"
  "fl64 2 = 2"
  "fl64 10 = 10"
  "fl64 1 = 1"
  "fl64 1000 = 1000"
  by code_simp+

lemma fround_values:
  "fround (3602879701896397 / 18014398509481984) = 13421773 / 67108864"
  "fround (3602879701896397 / 9007199254740992) = 13421773 / 33554432"
  "fround (8106479329266893 / 9007199254740992) = 7549747 / 8388608"
  "fround (1 / 2) = 1 / 2"
  "fround 2 = 2"
  "fround 10 = 10"
  "fround 1 = 1"
  by code_simp+

lemma fround_minus: "fround (- x) = - fround x"
  by (simp add: fround_def round_to_minus)

lemma scaleOf_range:
  assumes "0 \<le> r" "r < 1"
  shows "13421773 / 67108864 \<le> scaleOf r" "scaleOf r \<le> 13421773 / 33554432"
proof -
  define W :: rat where "W = 3602879701896397 / 18014398509481984"
  define p where "p = fl64 (r * W)"
  have "fl64 0 \<le> p" unfolding p_def using assms by (intro fl64_mono) (simp add: W_def)
  then have p0: "0 \<le> p" by simp
  have "p \<le> fl64 W" unfolding p_def using assms by (intro fl64_mono) (simp add: W_def)
  then have p1: "p \<le> W" by (simp add: W_def fl64_fixed)
  define q where "q = fl64 (p + W)"
  have "fl64 W \<le> q" unfolding q_def using p0 by (intro fl64_mono) simp
  then have q0: "W \<le> q" by (simp add: W_def fl64_fixed)
  have "q \<le> fl64 (3602879701896397 / 9007199254740992)" unfolding q_def using p1 by (intro fl64_mono) (simp add: W_def)
  then have q1: "q \<le> 3602879701896397 / 9007199254740992" by (simp add: fl64_fixed)
  have s: "scaleOf r = fround q"
    unfolding scaleOf_def f64_add_def f64_mul_def fl64_literals q_def p_def W_def ..
  have "fround W \<le> fround q" using q0 by (rule fround_mono)
  then show "13421773 / 67108864 \<le> scaleOf r" by (simp add: s W_def fround_values)
  have "fround q \<le> fround (3602879701896397 / 9007199254740992)" using q1 by (rule fround_mono)
  then show "scaleOf r \<le> 13421773 / 33554432" by (simp add: s fround_values)
qed

lemma offsetOf_range:
  assumes "0 \<le> r" "r < 1"
  shows "- (7549747 / 8388608) \<le> offsetOf r" "offsetOf r \<le> 7549747 / 8388608"
proof -
  define N :: rat where "N = 8106479329266893 / 9007199254740992"
  define d where "d = fl64 (r - 1 / 2)"
  have "fl64 (- (1 / 2)) \<le> d" unfolding d_def using assms by (intro fl64_mono) simp
  then have d0: "- (1 / 2) \<le> d" by (simp add: fl64_minus fl64_fixed)
  have "d \<le> fl64 (1 / 2)" unfolding d_def using assms by (intro fl64_mono) simp
  then have d1: "d \<le> 1 / 2" by (simp add: fl64_fixed)
  define q where "q = fl64 (8106479329266893 / 4503599627370496 * d)"
  have "fl64 (- N) \<le> q" unfolding q_def using d0 by (intro fl64_mono) (simp add: N_def)
  then have q0: "- N \<le> q" by (simp add: fl64_minus N_def fl64_fixed)
  have "q \<le> fl64 N" unfolding q_def using d1 by (intro fl64_mono) (simp add: N_def)
  then have q1: "q \<le> N" by (simp add: N_def fl64_fixed)
  have s: "offsetOf r = fround q"
    unfolding offsetOf_def f64_sub_def f64_mul_def fl64_literals fl64_fixed q_def d_def ..
  have "fround (- N) \<le> fround q" using q0 by (rule fround_mono)
  then show "- (7549747 / 8388608) \<le> offsetOf r" by (simp add: s N_def fround_minus fround_values)
  have "fround q \<le> fround N" using q1 by (rule fround_mono)
  then show "offsetOf r \<le> 7549747 / 8388608" by (simp add: s N_def fround_values)
qed

lemma scalarOf_range:
  assumes "0 \<le> r" "r < 1"
  shows "1 / 2 \<le> scalarOf r" "scalarOf r \<le> 2"
proof -
  define p where "p = fl64 (r * (3 / 2))"
  have "fl64 0 \<le> p" unfolding p_def using assms by (intro fl64_mono) simp
  then have p0: "0 \<le> p" by simp
  have "p \<le> fl64 (3 / 2)" unfolding p_def using assms by (intro fl64_mono) simp
  then have p1: "p \<le> 3 / 2" by (simp add: fl64_fixed)
  define q where "q = fl64 (p + 1 / 2)"
  have "fl64 (1 / 2) \<le> q" unfolding q_def using p0 by (intro fl64_mono) simp
  then have q0: "1 / 2 \<le> q" by (simp add: fl64_fixed)
  have "q \<le> fl64 2" unfolding q_def using p1 by (intro fl64_mono) simp
  then have q1: "q \<le> 2" by (simp add: fl64_fixed)
  have s: "scalarOf r = fround q"
    unfolding scalarOf_def f64_add_def f64_mul_def fl64_literals q_def p_def ..
  have "fround (1 / 2) \<le> fround q" using q0 by (rule fround_mono)
  then show "1 / 2 \<le> scalarOf r" by (simp add: s fround_values)
  have "fround q \<le> fround 2" using q1 by (rule fround_mono)
  then show "scalarOf r \<le> 2" by (simp add: s fround_values)
qed

lemma scalarOffsetOf_range:
  assumes "0 \<le> r" "r < 1"
  shows "0 \<le> scalarOffsetOf r" "scalarOffsetOf r \<le> 10"
proof -
  define p where "p = fl64 (r * 10)"
  have "fl64 0 \<le> p" unfolding p_def using assms by (intro fl64_mono) simp
  then have p0: "0 \<le> p" by simp
  have "p \<le> fl64 10" unfolding p_def using assms by (intro fl64_mono) simp
  then have p1: "p \<le> 10" by (simp add: fl64_fixed)
  have s: "scalarOffsetOf r = fround p"
    unfolding scalarOffsetOf_def f64_mul_def p_def ..
  have "fround 0 \<le> fround p" using p0 by (rule fround_mono)
  then show "0 \<le> scalarOffsetOf r" by (simp add: s)
  have "fround p \<le> fround 10" using p1 by (rule fround_mono)
  then show "scalarOffsetOf r \<le> 10" by (simp add: s fround_values)
qed

lemma near_one_fields:
  "scaleOf (1 - 1 / 2 ^ 30) = 13421773 / 33554432"
  "scalarOf (1 - 1 / 2 ^ 30) = 2"
  "scalarOffsetOf (1 - 1 / 2 ^ 30) = 10"
  "offsetOf 0 = - (7549747 / 8388608)"
  by code_simp+

section \<open>The recorded commands\<close>

lemma recordInstance_eq:
  "recordInstance s groups dynamicGroup i enc = enc @ instanceCommands s groups dynamicGroup i"
  by (simp add: recordInstance_def instanceCommands_def draw_def setBindGroup_def)

lemma fold_recordInstance:
  "fold (recordInstance s groups dynamicGroup) [0..<n] enc =
     enc @ concat (map (instanceCommands s groups dynamicGroup) [0..<n])"
  by (induction n) (simp_all add: recordInstance_eq)

declare recordLoop.simps [simp del]

lemma recordLoop_fold:
  "recordLoop s n groups dynamicGroup i enc = fold (recordInstance s groups dynamicGroup) [i..<n] enc"
proof (induction s n groups dynamicGroup i enc rule: recordLoop.induct)
  case (1 s n groups dynamicGroup i enc)
  show ?case
  proof (cases "i < n")
    case True
    with 1 show ?thesis by (subst recordLoop.simps) (simp add: upt_rec [of i n])
  next
    case False
    then show ?thesis by (subst recordLoop.simps) simp
  qed
qed

lemma recordRenderPass_eq:
  "recordRenderPass s n groups dynamicGroup timeGroup enc =
     enc @ [SetPipeline (if dynamicOffsets s then dynamicPipeline else pipeline),
            SetVertexBuffer 0 vertexBuffer,
            SetBindGroup 0 (Some timeGroup) []]
         @ concat (map (instanceCommands s groups dynamicGroup) [0..<n])"
  by (simp add: recordRenderPass_def recordLoop_fold fold_recordInstance setPipeline_def setVertexBuffer_def
        setBindGroup_def)

lemma length_concat_instanceCommands:
  "length (concat (map (instanceCommands s groups dynamicGroup) [0..<n])) = 2 * n"
  by (induction n) (simp_all add: instanceCommands_def)

lemma nth_concat_instanceCommands:
  assumes "i < n"
  shows "concat (map (instanceCommands s groups dynamicGroup) [0..<n]) ! (2 * i)
           = instanceCommands s groups dynamicGroup i ! 0"
    and "concat (map (instanceCommands s groups dynamicGroup) [0..<n]) ! (2 * i + 1)
           = instanceCommands s groups dynamicGroup i ! 1"
  using assms
proof (induction n)
  case 0
  {
    case 1 then show ?case by simp
  next
    case 2 then show ?case by simp
  }
next
  case (Suc n)
  {
    case 1
    then show ?case using Suc.IH(1)
      by (cases "i = n") (simp_all add: nth_append length_concat_instanceCommands)
  next
    case 2
    then show ?case using Suc.IH(2)
      by (cases "i = n") (simp_all add: nth_append length_concat_instanceCommands)
  }
qed

section \<open>The upload loop\<close>

lemma maxMappingLength_pos: "0 < maxMappingLength"
  by (simp add: maxMappingLength_def BYTES_PER_ELEMENT_def)

lemma maxMappingLength_bytes: "maxMappingLength * BYTES_PER_ELEMENT = 14 * 1024 * 1024"
  by (simp add: maxMappingLength_def BYTES_PER_ELEMENT_def)

declare uploadLoop.simps [simp del]

lemma uploadLoop_done: "len \<le> offset \<Longrightarrow> uploadLoop buf len offset = []"
  by (subst uploadLoop.simps) simp

lemma uploadLoop_step:
  "offset < len \<Longrightarrow>
   uploadLoop buf len offset =
     \<lparr>wb_buffer = buf, wb_bufferOffset = offset * BYTES_PER_ELEMENT,
      wb_dataOffset = offset * BYTES_PER_ELEMENT,
      wb_size = min (len - offset) maxMappingLength * BYTES_PER_ELEMENT\<rparr>
     # uploadLoop buf len (offset + maxMappingLength)"
  by (subst uploadLoop.simps) (simp add: Let_def)

lemma uploadLoop_single:
  assumes "0 < len" "len \<le> maxMappingLength"
  shows "uploadLoop buf len 0 =
           [\<lparr>wb_buffer = buf, wb_bufferOffset = 0, wb_dataOffset = 0,
             wb_size = len * BYTES_PER_ELEMENT\<rparr>]"
  using assms by (simp add: uploadLoop_step uploadLoop_done min_def)

lemma uploadLoop_contiguous:
  "contiguousFrom (offset * BYTES_PER_ELEMENT) (uploadLoop buf len offset)"
proof (induction buf len offset rule: uploadLoop.induct)
  case (1 buf len offset)
  show ?case
  proof (cases "offset < len")
    case True
    define k where "k = min (len - offset) maxMappingLength"
    have kpos: "0 < k" using True maxMappingLength_pos by (simp add: k_def)
    have IH: "contiguousFrom ((offset + maxMappingLength) * BYTES_PER_ELEMENT)
                (uploadLoop buf len (offset + maxMappingLength))"
      using 1 [OF True] by (simp add: k_def)
    show ?thesis
    proof (cases "offset + maxMappingLength < len")
      case True
      then have "k = maxMappingLength" by (simp add: k_def)
      then show ?thesis using IH \<open>offset < len\<close> kpos
        by (simp add: uploadLoop_step [OF \<open>offset < len\<close>] k_def [symmetric] add_mult_distrib
              BYTES_PER_ELEMENT_def)
    next
      case False
      then have "uploadLoop buf len (offset + maxMappingLength) = []"
        by (intro uploadLoop_done) simp
      then show ?thesis using kpos
        by (simp add: uploadLoop_step [OF \<open>offset < len\<close>] k_def [symmetric] BYTES_PER_ELEMENT_def)
    qed
  next
    case False
    then show ?thesis by (simp add: uploadLoop_done)
  qed
qed

lemma uploadLoop_sizes:
  "w \<in> set (uploadLoop buf len offset) \<Longrightarrow>
     0 < wb_size w \<and> wb_size w \<le> maxMappingLength * BYTES_PER_ELEMENT \<and> wb_buffer w = buf
     \<and> wb_bufferOffset w = wb_dataOffset w"
proof (induction buf len offset rule: uploadLoop.induct)
  case (1 buf len offset)
  show ?case
  proof (cases "offset < len")
    case True
    have "0 < min (len - offset) maxMappingLength" using True maxMappingLength_pos by simp
    then show ?thesis using 1 True
      by (auto simp: uploadLoop_step [OF True] BYTES_PER_ELEMENT_def)
  next
    case False
    then show ?thesis using 1(2) by (simp add: uploadLoop_done)
  qed
qed

lemma uploadLoop_slices:
  "concat (map (sliceOf src) (uploadLoop buf len offset))
     = take ((len - offset) * BYTES_PER_ELEMENT) (drop (offset * BYTES_PER_ELEMENT) src)"
proof (induction buf len offset rule: uploadLoop.induct)
  case (1 buf len offset)
  show ?case
  proof (cases "offset < len")
    case True
    define k where "k = min (len - offset) maxMappingLength"
    define B where "B = BYTES_PER_ELEMENT"
    have IH: "concat (map (sliceOf src) (uploadLoop buf len (offset + maxMappingLength)))
                = take ((len - (offset + maxMappingLength)) * B) (drop ((offset + maxMappingLength) * B) src)"
      using 1 [OF True] by (simp add: B_def)
    have split: "(len - offset) * B = k * B + (len - (offset + maxMappingLength)) * B"
      by (simp add: k_def min_def add_mult_distrib [symmetric])
    have "(len - (offset + maxMappingLength)) * B = 0 \<or> k = maxMappingLength"
      by (auto simp: k_def min_def)
    then have rest: "take ((len - (offset + maxMappingLength)) * B) (drop ((offset + maxMappingLength) * B) src)
            = take ((len - (offset + maxMappingLength)) * B) (drop (k * B) (drop (offset * B) src))"
      by (auto simp: add_mult_distrib add.commute)
    define w where "w = \<lparr>wb_buffer = buf, wb_bufferOffset = offset * B, wb_dataOffset = offset * B, wb_size = k * B\<rparr>"
    have head: "sliceOf src w = take (k * B) (drop (offset * B) src)"
      by (simp add: sliceOf_def w_def)
    have "concat (map (sliceOf src) (uploadLoop buf len offset))
            = sliceOf src w @ concat (map (sliceOf src) (uploadLoop buf len (offset + maxMappingLength)))"
      by (simp add: uploadLoop_step [OF True] w_def k_def B_def)
    also have "\<dots> = take (k * B) (drop (offset * B) src)
                      @ take ((len - (offset + maxMappingLength)) * B) (drop (k * B) (drop (offset * B) src))"
      by (simp only: head IH rest)
    also have "\<dots> = take ((len - offset) * B) (drop (offset * B) src)"
      by (simp only: split take_add)
    finally show ?thesis by (simp only: B_def)
  next
    case False
    then show ?thesis by (simp add: uploadLoop_done)
  qed
qed

lemma uploadLoop_writes:
  assumes "len * BYTES_PER_ELEMENT \<le> length src" "len * BYTES_PER_ELEMENT \<le> length dst"
    and "offset \<le> len"
  shows "performWrites src (uploadLoop buf len offset) dst
     = take (offset * BYTES_PER_ELEMENT) dst
       @ take ((len - offset) * BYTES_PER_ELEMENT) (drop (offset * BYTES_PER_ELEMENT) src)
       @ drop (len * BYTES_PER_ELEMENT) dst"
  using assms
proof (induction buf len offset arbitrary: dst rule: uploadLoop.induct)
  case (1 buf len offset)
  define B where "B = BYTES_PER_ELEMENT"
  show ?case
  proof (cases "offset < len")
    case False
    with 1(4) have "offset = len" by simp
    then show ?thesis by (simp add: uploadLoop_done performWrites_def)
  next
    case True
    define k where "k = min (len - offset) maxMappingLength"
    define w where "w = \<lparr>wb_buffer = buf, wb_bufferOffset = offset * B, wb_dataOffset = offset * B, wb_size = k * B\<rparr>"
    define dst' where "dst' = performWrite src w dst"
    have step: "performWrites src (uploadLoop buf len offset) dst
                 = performWrites src (uploadLoop buf len (offset + maxMappingLength)) dst'"
      by (simp add: uploadLoop_step [OF True] performWrites_def dst'_def w_def k_def B_def)
    have kle: "offset + k \<le> len" using True by (simp add: k_def)
    then have klen: "(offset + k) * B \<le> len * B" by (intro mult_le_mono1)
    have lsrc: "len * B \<le> length src" and ldst: "len * B \<le> length dst"
      using 1(2,3) by (simp_all add: B_def)
    have slice: "sliceOf src w = take (k * B) (drop (offset * B) src)"
      by (simp add: sliceOf_def w_def)
    have lslice: "length (sliceOf src w) = k * B"
      using klen lsrc by (simp add: slice add_mult_distrib)
    have dst': "dst' = take (offset * B) dst @ take (k * B) (drop (offset * B) src) @ drop ((offset + k) * B) dst"
      unfolding dst'_def performWrite_def slice by (simp add: w_def add_mult_distrib)
    have ldst': "length dst' = length dst"
      using klen ldst lsrc by (simp add: dst' add_mult_distrib)
    show ?thesis
    proof (cases "offset + maxMappingLength < len")
      case False
      then have k: "k = len - offset" by (simp add: k_def)
      have "uploadLoop buf len (offset + maxMappingLength) = []"
        using False by (intro uploadLoop_done) simp
      then have "performWrites src (uploadLoop buf len offset) dst = dst'"
        unfolding step by (simp add: performWrites_def)
      then show ?thesis using True by (simp add: dst' k B_def)
    next
      case lt: True
      then have k: "k = maxMappingLength" by (simp add: k_def)
      have IH: "performWrites src (uploadLoop buf len (offset + maxMappingLength)) dst'
          = take ((offset + maxMappingLength) * B) dst'
            @ take ((len - (offset + maxMappingLength)) * B) (drop ((offset + maxMappingLength) * B) src)
            @ drop (len * B) dst'"
        using "1.IH" [OF True refl, of dst'] 1(2) ldst ldst' lt by (simp add: B_def)
      have t: "take ((offset + k) * B) dst' = take (offset * B) dst @ take (k * B) (drop (offset * B) src)"
        using klen ldst lsrc by (simp add: dst' add_mult_distrib)
      have d: "drop (len * B) dst' = drop (len * B) dst"
        using klen ldst lsrc kle by (simp add: dst' add_mult_distrib)
      have s: "take ((len - offset) * B) (drop (offset * B) src)
               = take (k * B) (drop (offset * B) src)
                 @ take ((len - (offset + k)) * B) (drop ((offset + k) * B) src)"
      proof -
        have "(len - offset) * B = k * B + (len - (offset + k)) * B"
          using kle by (simp add: add_mult_distrib [symmetric])
        then show ?thesis by (simp add: take_add add_mult_distrib add.commute)
      qed
      show ?thesis unfolding step IH
        using t d s by (simp add: k B_def)
    qed
  qed
qed

section \<open>The smoothing step\<close>

lemma smooth_weights:
  "fl64 (1 - 3602879701896397 / 18014398509481984) = 3602879701896397 / 4503599627370496"
  by code_simp

lemma smooth_eq:
  "smooth a s =
     fl64 (fl64 (3602879701896397 / 4503599627370496 * a)
           + fl64 (3602879701896397 / 18014398509481984 * s))"
  unfolding smooth_def Let_def f64_add_def f64_mul_def f64_sub_def fl64_literals smooth_weights ..

lemma smooth_minus: "smooth (- a) (- s) = - smooth a s"
proof -
  have "smooth (- a) (- s)
        = fl64 (- (fl64 (3602879701896397 / 4503599627370496 * a)
                   + fl64 (3602879701896397 / 18014398509481984 * s)))"
    unfolding smooth_eq by (simp add: fl64_minus)
  then show ?thesis by (simp only: fl64_minus smooth_eq)
qed

lemma smooth_0: "smooth 0 0 = 0"
  by (simp add: smooth_eq)

lemma fl64_error_pos:
  assumes "1 / 2 ^ 1022 \<le> x"
  shows "x - x / 2 ^ 53 \<le> fl64 x" "fl64 x \<le> x + x / 2 ^ 53"
proof -
  have "(0::rat) < 1 / 2 ^ 1022" by simp
  then have "0 < x" using assms by linarith
  then have "\<bar>x\<bar> = x" by simp
  with fl64_error [of x] assms have "\<bar>fl64 x - x\<bar> \<le> x / 2 ^ 53" by simp
  then show "x - x / 2 ^ 53 \<le> fl64 x" "fl64 x \<le> x + x / 2 ^ 53" by linarith+
qed

lemma smooth_step_pos:
  assumes s: "1 / 2 ^ 1000 \<le> s"
    and a: "s - s / 2 ^ 49 \<le> a" "a \<le> s + s / 2 ^ 49"
  shows "s - s / 2 ^ 49 \<le> smooth a s" "smooth a s \<le> s + s / 2 ^ 49"
proof -
  define m :: rat where "m = 1 / 2 ^ 1022"
  have "(2::rat) ^ 1022 = 2 ^ 22 * 2 ^ 1000" by (simp add: power_add [symmetric])
  then have "(1::rat) / 2 ^ 1000 = 2 ^ 22 * m" by (simp add: m_def)
  then have sm: "4194304 * m \<le> s" using s by simp
  have mpos: "0 < m" by (simp add: m_def)
  define x1 where "x1 = 3602879701896397 / 4503599627370496 * a"
  define x2 where "x2 = 3602879701896397 / 18014398509481984 * s"
  define A where "A = fl64 x1"
  define B where "B = fl64 x2"
  have "m \<le> x1" unfolding x1_def using sm a mpos by simp
  then have "1 / 2 ^ 1022 \<le> x1" by (simp only: m_def)
  note A = fl64_error_pos [OF this, folded A_def]
  have "m \<le> x2" unfolding x2_def using sm mpos by simp
  then have "1 / 2 ^ 1022 \<le> x2" by (simp only: m_def)
  note B = fl64_error_pos [OF this, folded B_def]
  have "m \<le> A + B" using A(1) B(1) sm a mpos unfolding x1_def x2_def by (simp add: field_simps)
  then have "1 / 2 ^ 1022 \<le> A + B" by (simp only: m_def)
  note R = fl64_error_pos [OF this]
  have r: "smooth a s = fl64 (A + B)" by (simp only: smooth_eq A_def B_def x1_def x2_def)
  have spos: "0 < s" using sm mpos by simp
  show "s - s / 2 ^ 49 \<le> smooth a s"
    unfolding r using R(1) A(1) B(1) a spos unfolding x1_def x2_def by (simp add: field_simps)
  show "smooth a s \<le> s + s / 2 ^ 49"
    unfolding r using R(2) A(2) B(2) a spos unfolding x1_def x2_def by (simp add: field_simps)
qed

lemma smooth_first_pos:
  assumes s: "1 / 2 ^ 1000 \<le> s"
  shows "s - s / 2 ^ 51 \<le> smooth s s" "smooth s s \<le> s + s / 2 ^ 51"
proof -
  define m :: rat where "m = 1 / 2 ^ 1022"
  have "(2::rat) ^ 1022 = 2 ^ 22 * 2 ^ 1000" by (simp add: power_add [symmetric])
  then have "(1::rat) / 2 ^ 1000 = 2 ^ 22 * m" by (simp add: m_def)
  then have sm: "4194304 * m \<le> s" using s by simp
  have mpos: "0 < m" by (simp add: m_def)
  define x1 where "x1 = 3602879701896397 / 4503599627370496 * s"
  define x2 where "x2 = 3602879701896397 / 18014398509481984 * s"
  define A where "A = fl64 x1"
  define B where "B = fl64 x2"
  have "m \<le> x1" unfolding x1_def using sm mpos by simp
  then have "1 / 2 ^ 1022 \<le> x1" by (simp only: m_def)
  note A = fl64_error_pos [OF this, folded A_def]
  have "m \<le> x2" unfolding x2_def using sm mpos by simp
  then have "1 / 2 ^ 1022 \<le> x2" by (simp only: m_def)
  note B = fl64_error_pos [OF this, folded B_def]
  have "m \<le> A + B" using A(1) B(1) sm mpos unfolding x1_def x2_def by (simp add: field_simps)
  then have "1 / 2 ^ 1022 \<le> A + B" by (simp only: m_def)
  note R = fl64_error_pos [OF this]
  have r: "smooth s s = fl64 (A + B)" by (simp only: smooth_eq A_def B_def x1_def x2_def)
  have spos: "0 < s" using sm mpos by simp
  show "s - s / 2 ^ 51 \<le> smooth s s"
    unfolding r using R(1) A(1) B(1) spos unfolding x1_def x2_def by (simp add: field_simps)
  show "smooth s s \<le> s + s / 2 ^ 51"
    unfolding r using R(2) A(2) B(2) spos unfolding x1_def x2_def by (simp add: field_simps)
qed

section \<open>The configuration that \<^verbatim>\<open>configure\<close> returns\<close>

lemma configureWith_fields:
  "numTriangles_const (configureWith s mathRandom buf zeros slots) = length slots"
  "uniformBuffer (configureWith s mathRandom buf zeros slots) = buf"
  "uniformBufferData (configureWith s mathRandom buf zeros slots)
     = fst (fillInstances alignedUniformFloats mathRandom buf (length slots) (zeros, slots))"
  "bindGroups (configureWith s mathRandom buf zeros slots)
     = snd (fillInstances alignedUniformFloats mathRandom buf (length slots) (zeros, slots))"
  "dynamicBindGroup (configureWith s mathRandom buf zeros slots)
     = \<lparr>bg_layout = dynamicBindGroupLayout, bg_buffer = buf, bg_offset = 0,
        bg_size = 6 * BYTES_PER_ELEMENT\<rparr>"
  "timeOffset (configureWith s mathRandom buf zeros slots) = length slots * alignedUniformBytes"
  "timeBindGroup (configureWith s mathRandom buf zeros slots)
     = \<lparr>bg_layout = timeBindGroupLayout, bg_buffer = buf,
        bg_offset = length slots * alignedUniformBytes, bg_size = BYTES_PER_ELEMENT\<rparr>"
  "startTime (configureWith s mathRandom buf zeros slots) = None"
  "uniformTime (configureWith s mathRandom buf zeros slots) = 0"
  by (simp_all add: configureWith_def Let_def)

lemma configureWith_uploads:
  "uploads (configureWith s mathRandom buf zeros slots)
     = uploadLoop buf (length (uniformBufferData (configureWith s mathRandom buf zeros slots))) 0"
  by (simp add: configureWith_def Let_def)

lemma configureWith_renderBundle:
  "renderBundle (configureWith s mathRandom buf zeros slots)
     = directCommands s (configureWith s mathRandom buf zeros slots)"
  by (simp add: configureWith_def Let_def directCommands_def)

lemma bindGroups_configureWith:
  assumes "i < n"
  shows "element (bindGroups (configureWith s mathRandom buf zeros (replicate n None))) i
           = Some (staticBindGroup buf i)"
  using assms
  by (simp add: configureWith_fields groups_fillInstances length_groups_fillInstances element_def)

lemma directCommands_eq:
  "directCommands s c =
     [SetPipeline (if dynamicOffsets s then dynamicPipeline else pipeline),
      SetVertexBuffer 0 vertexBuffer,
      SetBindGroup 0 (Some (timeBindGroup c)) []]
     @ concat (map (instanceCommands s (bindGroups c) (dynamicBindGroup c)) [0..<numTriangles_const c])"
  by (simp add: directCommands_def recordRenderPass_eq)

lemma instanceCommands_configured:
  assumes "i < n"
  shows "instanceCommands s' (bindGroups (configureWith s mathRandom buf zeros (replicate n None)))
           (dynamicBindGroup (configureWith s mathRandom buf zeros (replicate n None))) i
         = [SetBindGroup 1
              (Some (if dynamicOffsets s'
                     then \<lparr>bg_layout = dynamicBindGroupLayout, bg_buffer = buf, bg_offset = 0,
                           bg_size = 6 * BYTES_PER_ELEMENT\<rparr>
                     else staticBindGroup buf i))
              (if dynamicOffsets s' then [i * alignedUniformBytes] else []),
            Draw 3 1 0 0]"
  using bindGroups_configureWith [OF assms, of s mathRandom buf zeros]
  by (simp add: instanceCommands_def configureWith_fields(5))

section \<open>The draw function and the event handlers\<close>

lemma doDraw_fields:
  "startTime (fst (doDraw s c t)) = Some (case startTime c of None \<Rightarrow> t | Some t0 \<Rightarrow> t0)"
  "written_time (snd (doDraw s c t))
     = fround (f64_div (f64_sub t (case startTime c of None \<Rightarrow> t | Some t0 \<Rightarrow> t0)) 1000)"
  "written_buffer (snd (doDraw s c t)) = uniformBuffer c"
  "written_offset (snd (doDraw s c t)) = timeOffset c"
  "submitted (snd (doDraw s c t))
     = (if renderBundles s then [ExecuteBundles [renderBundle c]]
        else map Encoded (directCommands s c))"
  by (simp_all add: doDraw_def Let_def directCommands_def)

lemma instanceCommands_numTriangles_update:
  "instanceCommands (s\<lparr>numTriangles := v\<rparr>) groups dynamicGroup = instanceCommands s groups dynamicGroup"
  by (rule ext) (simp add: instanceCommands_def)

lemma directCommands_numTriangles_update:
  "directCommands (s\<lparr>numTriangles := v\<rparr>) c = directCommands s c"
  by (simp add: directCommands_eq instanceCommands_numTriangles_update)

lemma doDraw_numTriangles_update:
  "doDraw (s\<lparr>numTriangles := v\<rparr>) c t = doDraw s c t"
  by (simp add: doDraw_def directCommands_numTriangles_update [unfolded directCommands_def])

lemma first_elapsed: "fround (f64_div (f64_sub t t) 1000) = 0"
  by (simp add: f64_div_def f64_sub_def)

lemma second_elapsed: "fround (f64_div (f64_sub (t + 1000) t) 1000) = 1"
  by (simp add: f64_div_def f64_sub_def fl64_fixed fround_values)

lemma updateSettings_rejects:
  assumes "negativeOrNonFinite (numTriangles (settings a))"
  shows "fst (updateSettings dev mathRandom a) = a"
    and "\<exists>e. snd (updateSettings dev mathRandom a) = Some e"
proof -
  have "numTriangles (settings a) = NaN \<or> numTriangles (settings a) = PosInfinity
      \<or> numTriangles (settings a) = NegInfinity \<or> (\<exists>x. numTriangles (settings a) = Finite x \<and> x < 0)"
    using assms by (auto simp: negativeOrNonFinite_def split: number.splits)
  then obtain e where "configure dev mathRandom (settings a) = Inl e"
    using configure_rejects by blast
  then show "fst (updateSettings dev mathRandom a) = a"
    and "\<exists>e. snd (updateSettings dev mathRandom a) = Some e"
    by (simp_all add: updateSettings_def)
qed

lemma updateSettings_accepts:
  assumes "updateSettings dev mathRandom a = (a', None)"
  shows "configure dev mathRandom (settings a) = Inr (doDraw_var a')" "settings a' = settings a"
  using assms by (auto simp: updateSettings_def split: sum.splits)

lemma frame_fields:
  "frameTimeAvg (fst (frame a t now0 now1)) = updateAvg (frameTimeAvg a) (frameTime a t)"
  "jsTimeAvg (fst (frame a t now0 now1)) = updateAvg (jsTimeAvg a) (f64_sub now1 now0)"
  "previousFrameTimestamp (fst (frame a t now0 now1)) = Some t"
  "doDraw_var (fst (frame a t now0 now1)) = fst (doDraw (settings a) (doDraw_var a) t)"
  "settings (fst (frame a t now0 now1)) = settings a"
  "snd (frame a t now0 now1) = snd (doDraw (settings a) (doDraw_var a) t)"
  by (simp_all add: frame_def Let_def)

lemma example_configure:
  "configure exampleDevice mathRandom exampleSettings
     = Inr (configureWith exampleSettings mathRandom (bufferFor exampleDevice 2)
              (replicate (2 * alignedUniformFloats) 0) (replicate 2 None))"
proof -
  have "(2::nat) < 2 ^ 32" by simp
  moreover have "numTriangles exampleSettings = Finite (of_nat 2)" by (simp add: exampleSettings_def)
  ultimately show ?thesis
    by (simp add: configure_count [where n = 2] exampleDevice_def)
qed

lemma empty_configure:
  "configure exampleDevice mathRandom emptySettings
     = Inr (configureWith emptySettings mathRandom (bufferFor exampleDevice 0) [] [])"
proof -
  have "(0::nat) < 2 ^ 32" by simp
  moreover have "numTriangles emptySettings = Finite (of_nat 0)" by (simp add: emptySettings_def)
  ultimately show ?thesis
    by (simp add: configure_count [where n = 0] exampleDevice_def)
qed

section \<open>Facts about the commands, the stale state and repeated smoothing\<close>

lemma nth_directCommands:
  assumes "i < numTriangles_const c"
  shows "directCommands s c ! (3 + 2 * i)
           = instanceCommands s (bindGroups c) (dynamicBindGroup c) i ! 0"
proof -
  have "directCommands s c ! (3 + 2 * i)
          = concat (map (instanceCommands s (bindGroups c) (dynamicBindGroup c))
                      [0..<numTriangles_const c]) ! (2 * i)"
    by (simp add: directCommands_eq nth_append)
  then show ?thesis by (simp only: nth_concat_instanceCommands(1) [OF assms])
qed

lemma staleApp_eq:
  "staleApp = exampleApp\<lparr>settings := exampleSettings\<lparr>numTriangles := Finite (- 1), dynamicOffsets := True\<rparr>\<rparr>"
proof -
  define a1 where "a1 = exampleApp\<lparr>settings := (settings exampleApp)\<lparr>numTriangles := Finite (- 1)\<rparr>\<rparr>"
  have "negativeOrNonFinite (numTriangles (settings a1))"
    by (simp add: a1_def negativeOrNonFinite_def)
  then have 1: "fst (numTrianglesChange exampleDevice halves (Finite (- 1)) exampleApp) = a1"
    unfolding numTrianglesChange_def a1_def [symmetric] by (rule updateSettings_rejects)
  define a2 where "a2 = a1\<lparr>settings := (settings a1)\<lparr>dynamicOffsets := True\<rparr>\<rparr>"
  have "negativeOrNonFinite (numTriangles (settings a2))"
    by (simp add: a2_def a1_def negativeOrNonFinite_def)
  then have 2: "fst (dynamicOffsetsInput exampleDevice halves True a1) = a2"
    unfolding dynamicOffsetsInput_def a2_def [symmetric] by (rule updateSettings_rejects)
  show ?thesis
    unfolding staleApp_def 1 2 by (simp add: a2_def a1_def exampleApp_def)
qed

lemma smooth_step:
  assumes "s = 0 \<or> 1 / 2 ^ 1000 \<le> \<bar>s\<bar>" and "\<bar>a - s\<bar> \<le> \<bar>s\<bar> / 2 ^ 49"
  shows "\<bar>smooth a s - s\<bar> \<le> \<bar>s\<bar> / 2 ^ 49"
proof -
  have pos: "\<bar>smooth a' s' - s'\<bar> \<le> s' / 2 ^ 49"
    if "1 / 2 ^ 1000 \<le> s'" "\<bar>a' - s'\<bar> \<le> s' / 2 ^ 49" for a' s'
  proof -
    from that(2) have "s' - s' / 2 ^ 49 \<le> a'" "a' \<le> s' + s' / 2 ^ 49" by linarith+
    from smooth_step_pos [OF that(1) this] show ?thesis by linarith
  qed
  have small: "(0::rat) < 1 / 2 ^ 1000" by simp
  consider "s = 0" | "1 / 2 ^ 1000 \<le> s" | "1 / 2 ^ 1000 \<le> - s"
    using assms(1) by (cases "0 \<le> s") auto
  then show ?thesis
  proof cases
    case 1
    with assms(2) have "a = 0" by simp
    with 1 show ?thesis by (simp add: smooth_0)
  next
    case 2
    then have "\<bar>s\<bar> = s" using small by linarith
    with pos [OF 2, of a] assms(2) show ?thesis by simp
  next
    case 3
    then have abs: "\<bar>s\<bar> = - s" using small by linarith
    have "\<bar>- a - - s\<bar> \<le> - s / 2 ^ 49" using assms(2) abs by (simp add: abs_minus_commute)
    from pos [OF 3 this] have "\<bar>- smooth a s + s\<bar> \<le> - s / 2 ^ 49"
      by (simp add: smooth_minus)
    then show ?thesis using abs by (simp add: abs_minus_commute [of _ s])
  qed
qed

lemma smooth_first:
  assumes "s = 0 \<or> 1 / 2 ^ 1000 \<le> \<bar>s\<bar>"
  shows "\<bar>smooth s s - s\<bar> \<le> \<bar>s\<bar> / 2 ^ 51"
proof -
  have pos: "\<bar>smooth s' s' - s'\<bar> \<le> s' / 2 ^ 51" if "1 / 2 ^ 1000 \<le> s'" for s'
    using smooth_first_pos [OF that] by linarith
  have small: "(0::rat) < 1 / 2 ^ 1000" by simp
  consider "s = 0" | "1 / 2 ^ 1000 \<le> s" | "1 / 2 ^ 1000 \<le> - s"
    using assms(1) by (cases "0 \<le> s") auto
  then show ?thesis
  proof cases
    case 1
    then show ?thesis by (simp add: smooth_0)
  next
    case 2
    then have "\<bar>s\<bar> = s" using small by linarith
    with pos [OF 2] show ?thesis by simp
  next
    case 3
    then have abs: "\<bar>s\<bar> = - s" using small by linarith
    from pos [OF 3] have "\<bar>- smooth s s + s\<bar> \<le> - s / 2 ^ 51"
      by (simp add: smooth_minus)
    then show ?thesis using abs by (simp add: abs_minus_commute [of _ s])
  qed
qed

lemma feedSame_Suc: "feedSame s (Suc n) = updateAvg (feedSame s n) s"
  by (simp add: feedSame_def)

lemma feedSame_close:
  assumes "s = 0 \<or> 1 / 2 ^ 1000 \<le> \<bar>s\<bar>"
  shows "\<exists>v. feedSame s (Suc n) = Some v \<and> \<bar>v - s\<bar> \<le> \<bar>s\<bar> / 2 ^ 49"
proof (induction n)
  case 0
  have "\<bar>s\<bar> / 2 ^ 51 \<le> \<bar>s\<bar> / 2 ^ 49" by (simp add: field_simps)
  with smooth_first [OF assms] have "\<bar>smooth s s - s\<bar> \<le> \<bar>s\<bar> / 2 ^ 49" by linarith
  then show ?case by (simp add: feedSame_def updateAvg_def)
next
  case (Suc n)
  then obtain v where v: "feedSame s (Suc n) = Some v" "\<bar>v - s\<bar> \<le> \<bar>s\<bar> / 2 ^ 49" by blast
  have "feedSame s (Suc (Suc n)) = Some (smooth v s)"
    unfolding feedSame_Suc [of s "Suc n"] v(1) by (simp add: updateAvg_def)
  with smooth_step [OF assms v(2)] show ?case by blast
qed

lemma smooth_3: "smooth 3 3 = 6755399441055745 / 2251799813685248"
  by code_simp

section \<open>The claims\<close>

text \<open>
  C1. The aligned stride that \<^verbatim>\<open>configure\<close> computes for the logical size of 20 bytes is
  256, the least multiple of 256 that is at least 20. Whenever \<^verbatim>\<open>configure\<close> returns, for
  \<open>n\<close> triangles, the uniform buffer has been created with size
  \<open>n * alignedUniformBytes + 4\<close>, and the time slot (offset of the time bind group and of
  the per-frame write) is at \<open>n * alignedUniformBytes\<close>, where the slot of the last
  instance ends.
\<close>

theorem configure_layout:
  assumes "configure dev mathRandom s = Inr c"
  shows "uniformBytes = 20 \<and> alignedUniformBytes = 256
       \<and> 256 dvd alignedUniformBytes \<and> uniformBytes \<le> alignedUniformBytes
       \<and> (\<forall>m. 256 dvd m \<and> uniformBytes \<le> m \<longrightarrow> alignedUniformBytes \<le> m)
       \<and> numTriangles s = Finite (of_nat (numTriangles_const c))
       \<and> buffer_size (uniformBuffer c)
           = Finite (of_nat (numTriangles_const c * alignedUniformBytes + 4))
       \<and> timeOffset c = numTriangles_const c * alignedUniformBytes
       \<and> bg_buffer (timeBindGroup c) = uniformBuffer c
       \<and> bg_offset (timeBindGroup c) = timeOffset c
       \<and> bg_size (timeBindGroup c) = 4
       \<and> (\<forall>i<numTriangles_const c.
             bg_offset (staticBindGroup (uniformBuffer c) i) + alignedUniformBytes \<le> timeOffset c)"
proof -
  from configure_Inr [OF assms] obtain n where n: "n < 2 ^ 32" "numTriangles s = Finite (of_nat n)"
    and c: "c = configureWith s mathRandom (bufferFor dev n)
                  (replicate (n * alignedUniformFloats) 0) (replicate n None)"
    by blast
  have least: "alignedUniformBytes \<le> m" if "256 dvd m" "uniformBytes \<le> m" for m
  proof -
    from that(1) obtain k where k: "m = 256 * k" ..
    with that(2) have "k \<noteq> 0" by (auto simp: uniformBytes_eq)
    then show ?thesis by (simp add: alignedUniformBytes_eq k)
  qed
  have slots: "bg_offset (staticBindGroup (bufferFor dev n) i) + alignedUniformBytes
                 \<le> n * alignedUniformBytes" if "i < n" for i
  proof -
    have "Suc i * alignedUniformBytes \<le> n * alignedUniformBytes"
      using that by (intro mult_le_mono1) simp
    then show ?thesis by (simp add: staticBindGroup_def)
  qed
  show ?thesis
    using n(2) least slots
    by (simp add: c configureWith_fields bufferFor_def uniformBytes_eq alignedUniformBytes_eq
          BYTES_PER_ELEMENT_def)
qed

theorem configure_layout_witness:
  "configure exampleDevice halves exampleSettings = Inr exampleConfiguration
   \<and> buffer_size (uniformBuffer exampleConfiguration) = Finite 516
   \<and> timeOffset exampleConfiguration = 512
   \<and> alignedUniformBytes \<le> 768"
proof -
  have h: "configure exampleDevice halves exampleSettings = Inr exampleConfiguration"
    by (simp add: example_configure exampleConfiguration_def)
  have n: "numTriangles_const exampleConfiguration = 2"
    by (simp add: exampleConfiguration_def configureWith_fields)
  have u: "uniformBytes \<le> 768" by (simp add: uniformBytes_eq)
  from configure_layout [OF h] u show ?thesis
    by (simp add: h n)
qed

text \<open>
  C2. After \<^verbatim>\<open>configure\<close> has returned, take any instance \<open>i\<close>. The command that
  \<^verbatim>\<open>recordRenderPass\<close> records for binding group 1 of instance \<open>i\<close> is, with
  \<^verbatim>\<open>dynamicOffsets\<close> off, \<^verbatim>\<open>setBindGroup(1, bindGroups[i])\<close>, where \<^verbatim>\<open>bindGroups[i]\<close> is
  the group made for instance \<open>i\<close>, and, with it on,
  \<^verbatim>\<open>setBindGroup(1, dynamicBindGroup, [i * alignedUniformBytes])\<close>. Both expose the same
  range of the same uniform buffer: 24 bytes from byte \<open>i * alignedUniformBytes\<close>. So for
  any contents of the buffers, the bytes that reach the vertex stage through the binding are
  the same in both modes, and so is anything computed from them.
\<close>

theorem binding_modes_same_range:
  assumes "configure dev mathRandom s = Inr c" and "i < numTriangles_const c"
  shows "directCommands (s\<lparr>dynamicOffsets := False\<rparr>) c ! (3 + 2 * i)
           = SetBindGroup 1 (element (bindGroups c) i) []
       \<and> element (bindGroups c) i = Some (staticBindGroup (uniformBuffer c) i)
       \<and> directCommands (s\<lparr>dynamicOffsets := True\<rparr>) c ! (3 + 2 * i)
           = SetBindGroup 1 (Some (dynamicBindGroup c)) [i * alignedUniformBytes]
       \<and> boundRange (directCommands (s\<lparr>dynamicOffsets := False\<rparr>) c ! (3 + 2 * i))
           = Some (uniformBuffer c, i * alignedUniformBytes, 24)
       \<and> boundRange (directCommands (s\<lparr>dynamicOffsets := True\<rparr>) c ! (3 + 2 * i))
           = Some (uniformBuffer c, i * alignedUniformBytes, 24)
       \<and> boundBytes memory (directCommands (s\<lparr>dynamicOffsets := False\<rparr>) c ! (3 + 2 * i))
           = boundBytes memory (directCommands (s\<lparr>dynamicOffsets := True\<rparr>) c ! (3 + 2 * i))
       \<and> map_option vertexStage
             (boundBytes memory (directCommands (s\<lparr>dynamicOffsets := False\<rparr>) c ! (3 + 2 * i)))
           = map_option vertexStage
               (boundBytes memory (directCommands (s\<lparr>dynamicOffsets := True\<rparr>) c ! (3 + 2 * i)))"
proof -
  from configure_Inr [OF assms(1)] obtain n where
    c: "c = configureWith s mathRandom (bufferFor dev n)
              (replicate (n * alignedUniformFloats) 0) (replicate n None)"
    by blast
  have n: "numTriangles_const c = n" by (simp add: c configureWith_fields)
  have i: "i < n" using assms(2) n by simp
  have g: "element (bindGroups c) i = Some (staticBindGroup (bufferFor dev n) i)"
    unfolding c using i by (rule bindGroups_configureWith)
  have st: "directCommands (s\<lparr>dynamicOffsets := False\<rparr>) c ! (3 + 2 * i)
              = SetBindGroup 1 (element (bindGroups c) i) []"
    by (simp add: nth_directCommands [OF assms(2)] instanceCommands_def)
  have dy: "directCommands (s\<lparr>dynamicOffsets := True\<rparr>) c ! (3 + 2 * i)
              = SetBindGroup 1 (Some (dynamicBindGroup c)) [i * alignedUniformBytes]"
    by (simp add: nth_directCommands [OF assms(2)] instanceCommands_def)
  have ub: "uniformBuffer c = bufferFor dev n" by (simp add: c configureWith_fields)
  have dg: "dynamicBindGroup c
              = \<lparr>bg_layout = dynamicBindGroupLayout, bg_buffer = bufferFor dev n, bg_offset = 0,
                 bg_size = 6 * BYTES_PER_ELEMENT\<rparr>"
    by (simp add: c configureWith_fields)
  have r1: "boundRange (SetBindGroup 1 (element (bindGroups c) i) [])
              = Some (uniformBuffer c, i * alignedUniformBytes, 24)"
    unfolding g ub by (simp add: staticBindGroup_def BYTES_PER_ELEMENT_def)
  have r2: "boundRange (SetBindGroup 1 (Some (dynamicBindGroup c)) [i * alignedUniformBytes])
              = Some (uniformBuffer c, i * alignedUniformBytes, 24)"
    unfolding dg ub by (simp add: BYTES_PER_ELEMENT_def)
  show ?thesis
    unfolding st dy boundBytes_def r1 r2 using g by (simp add: ub)
qed

theorem binding_modes_same_range_witness:
  "boundRange (directCommands (exampleSettings\<lparr>dynamicOffsets := False\<rparr>) exampleConfiguration ! 5)
     = Some (bufferFor exampleDevice 2, 256, 24)
   \<and> boundRange (directCommands (exampleSettings\<lparr>dynamicOffsets := True\<rparr>) exampleConfiguration ! 5)
     = Some (bufferFor exampleDevice 2, 256, 24)"
proof -
  have h: "configure exampleDevice halves exampleSettings = Inr exampleConfiguration"
    by (simp add: example_configure exampleConfiguration_def)
  have n: "1 < numTriangles_const exampleConfiguration"
    by (simp add: exampleConfiguration_def configureWith_fields)
  have b: "uniformBuffer exampleConfiguration = bufferFor exampleDevice 2"
    by (simp add: exampleConfiguration_def configureWith_fields)
  from binding_modes_same_range
         [OF h n, where memory = "\<lambda>b. replicate 1024 (0::nat)" and vertexStage = length]
  have "boundRange (directCommands (exampleSettings\<lparr>dynamicOffsets := False\<rparr>) exampleConfiguration ! (3 + 2 * 1))
          = Some (uniformBuffer exampleConfiguration, 1 * alignedUniformBytes, 24)
      \<and> boundRange (directCommands (exampleSettings\<lparr>dynamicOffsets := True\<rparr>) exampleConfiguration ! (3 + 2 * 1))
          = Some (uniformBuffer exampleConfiguration, 1 * alignedUniformBytes, 24)"
    by blast
  then show ?thesis
    by (simp add: b alignedUniformBytes_eq)
qed

text \<open>
  C3. After \<^verbatim>\<open>configure\<close> has returned for \<open>n\<close> triangles, and while
  \<^verbatim>\<open>settings.dynamicOffsets\<close> is as it was at that call, what \<^verbatim>\<open>recordRenderPass\<close>
  records is: one \<^verbatim>\<open>setPipeline\<close>, one \<^verbatim>\<open>setVertexBuffer\<close>, one \<^verbatim>\<open>setBindGroup\<close> of the
  time bind group, and then for \<open>i = 0, .., n - 1\<close> in this order one \<^verbatim>\<open>setBindGroup\<close> for
  group 1 (the static group \<open>i\<close>, or the dynamic group with offset
  \<open>i * alignedUniformBytes\<close>) and one \<^verbatim>\<open>draw(3, 1, 0, 0)\<close>. The render bundle made by
  \<^verbatim>\<open>configure\<close> holds exactly this sequence, so the pass performs the same commands in the
  same order whether \<^verbatim>\<open>doDraw\<close> executes the bundle or records directly.
\<close>

theorem recorded_sequence:
  assumes "configure dev mathRandom s = Inr c"
    and "dynamicOffsets s' = dynamicOffsets s"
  shows "directCommands s' c =
           [SetPipeline (if dynamicOffsets s then dynamicPipeline else pipeline),
            SetVertexBuffer 0 vertexBuffer,
            SetBindGroup 0 (Some (timeBindGroup c)) []]
           @ concat (map (\<lambda>i. [SetBindGroup 1
                                   (Some (if dynamicOffsets s then dynamicBindGroup c
                                          else staticBindGroup (uniformBuffer c) i))
                                   (if dynamicOffsets s then [i * alignedUniformBytes] else []),
                                 Draw 3 1 0 0])
                       [0..<numTriangles_const c])
       \<and> renderBundle c = directCommands s' c
       \<and> length (directCommands s' c) = 3 + 2 * numTriangles_const c
       \<and> submitted (snd (doDraw (s'\<lparr>renderBundles := False\<rparr>) c t))
           = map Encoded (directCommands s' c)
       \<and> submitted (snd (doDraw (s'\<lparr>renderBundles := True\<rparr>) c t))
           = [ExecuteBundles [renderBundle c]]
       \<and> executed (submitted (snd (doDraw (s'\<lparr>renderBundles := True\<rparr>) c t)))
           = executed (submitted (snd (doDraw (s'\<lparr>renderBundles := False\<rparr>) c t)))"
proof -
  from configure_Inr [OF assms(1)] obtain n where
    c: "c = configureWith s mathRandom (bufferFor dev n)
              (replicate (n * alignedUniformFloats) 0) (replicate n None)"
    by blast
  have n: "numTriangles_const c = n" by (simp add: c configureWith_fields)
  have same: "instanceCommands s' groups dynamicGroup = instanceCommands s groups dynamicGroup"
    for groups dynamicGroup
    by (rule ext) (simp add: instanceCommands_def assms(2))
  have d: "directCommands s' c = directCommands s c"
    by (simp add: directCommands_eq assms(2) same)
  have "map (instanceCommands s (bindGroups c) (dynamicBindGroup c)) [0..<n]
          = map (\<lambda>i. [SetBindGroup 1
                         (Some (if dynamicOffsets s then dynamicBindGroup c
                                else staticBindGroup (uniformBuffer c) i))
                         (if dynamicOffsets s then [i * alignedUniformBytes] else []),
                       Draw 3 1 0 0])
              [0..<n]"
  proof (rule map_cong [OF refl])
    fix i assume "i \<in> set [0..<n]"
    then have "i < n" by simp
    from instanceCommands_configured [OF this, of s s mathRandom "bufferFor dev n"]
    show "instanceCommands s (bindGroups c) (dynamicBindGroup c) i
            = [SetBindGroup 1
                 (Some (if dynamicOffsets s then dynamicBindGroup c
                        else staticBindGroup (uniformBuffer c) i))
                 (if dynamicOffsets s then [i * alignedUniformBytes] else []),
               Draw 3 1 0 0]"
      by (simp add: c configureWith_fields)
  qed
  then have seq: "directCommands s c =
           [SetPipeline (if dynamicOffsets s then dynamicPipeline else pipeline),
            SetVertexBuffer 0 vertexBuffer,
            SetBindGroup 0 (Some (timeBindGroup c)) []]
           @ concat (map (\<lambda>i. [SetBindGroup 1
                                   (Some (if dynamicOffsets s then dynamicBindGroup c
                                          else staticBindGroup (uniformBuffer c) i))
                                   (if dynamicOffsets s then [i * alignedUniformBytes] else []),
                                 Draw 3 1 0 0])
                       [0..<numTriangles_const c])"
    unfolding directCommands_eq [of s c] n by (simp only:)
  have b: "renderBundle c = directCommands s c"
    unfolding c by (rule configureWith_renderBundle)
  have len: "length (directCommands s c) = 3 + 2 * numTriangles_const c"
    by (simp add: directCommands_eq length_concat_instanceCommands del: length_concat)
  have upd: "directCommands (s'\<lparr>renderBundles := False\<rparr>) c = directCommands s c"
    by (simp add: directCommands_eq assms(2) instanceCommands_def [abs_def])
  have ex: "executed (map Encoded xs) = xs" for xs
    by (induction xs) (simp_all add: executed_def)
  have dpath: "submitted (snd (doDraw (s'\<lparr>renderBundles := False\<rparr>) c t))
                  = map Encoded (directCommands s c)"
    by (simp add: doDraw_fields upd)
  have bpath: "submitted (snd (doDraw (s'\<lparr>renderBundles := True\<rparr>) c t))
                  = [ExecuteBundles [renderBundle c]]"
    by (simp add: doDraw_fields)
  have same_executed:
    "executed (submitted (snd (doDraw (s'\<lparr>renderBundles := True\<rparr>) c t)))
       = executed (submitted (snd (doDraw (s'\<lparr>renderBundles := False\<rparr>) c t)))"
    unfolding dpath bpath ex b by (simp add: executed_def)
  show ?thesis
    unfolding d
    using seq b len dpath bpath same_executed by (intro conjI)
qed

theorem recorded_sequence_witness:
  "directCommands exampleSettings exampleConfiguration =
     [SetPipeline pipeline, SetVertexBuffer 0 vertexBuffer,
      SetBindGroup 0 (Some (timeBindGroup exampleConfiguration)) [],
      SetBindGroup 1 (Some (staticBindGroup (bufferFor exampleDevice 2) 0)) [], Draw 3 1 0 0,
      SetBindGroup 1 (Some (staticBindGroup (bufferFor exampleDevice 2) 1)) [], Draw 3 1 0 0]
   \<and> renderBundle exampleConfiguration = directCommands exampleSettings exampleConfiguration"
proof -
  have h: "configure exampleDevice halves exampleSettings = Inr exampleConfiguration"
    by (simp add: example_configure exampleConfiguration_def)
  have n: "numTriangles_const exampleConfiguration = 2"
    by (simp add: exampleConfiguration_def configureWith_fields)
  have b: "uniformBuffer exampleConfiguration = bufferFor exampleDevice 2"
    by (simp add: exampleConfiguration_def configureWith_fields)
  have f: "\<not> dynamicOffsets exampleSettings" by (simp add: exampleSettings_def)
  have u: "[0..<2] = [0, 1]" by (simp add: upt_rec)
  from recorded_sequence [OF h refl] show ?thesis
    by (simp add: n b f u)
qed

text \<open>
  C4, as stated, fails for the empty payload (\<^verbatim>\<open>numTriangles\<close> 0): it does not exceed the
  ceiling, and the loop makes no transfer for it.
\<close>

theorem empty_payload_counterexample:
  "\<not> isl (configure exampleDevice halves emptySettings)
   \<and> length (uniformBufferData (projr (configure exampleDevice halves emptySettings)))
     * BYTES_PER_ELEMENT \<le> 14 * 1024 * 1024
   \<and> length (uploads (projr (configure exampleDevice halves emptySettings))) \<noteq> 1"
  by (simp add: empty_configure configureWith_uploads configureWith_fields fillInstances_0
        uploadLoop_done)

text \<open>
  C4, amended. For a payload of \<open>len\<close> elements (\<open>len * 4\<close> bytes), whatever its bytes
  \<open>src\<close>, the transfers of the upload loop are contiguous from byte 0 in source and
  destination, in ascending order, each non-empty and of at most \<open>14 * 1024 * 1024\<close> bytes,
  all into the uniform buffer and each to the destination offset equal to its source offset;
  the concatenation of the bytes they take is \<open>src\<close>, and performing them on a destination
  puts \<open>src\<close> at its start and leaves the rest as it was. A non-empty payload that does not
  exceed the ceiling is sent as a single transfer; for the empty payload there is no
  transfer. These are the transfers that \<^verbatim>\<open>configure\<close> makes for \<^verbatim>\<open>uniformBufferData\<close>.
\<close>

theorem upload_chunks:
  assumes "length src = len * BYTES_PER_ELEMENT" and "len * BYTES_PER_ELEMENT \<le> length dst"
  shows "contiguousFrom 0 (uploadLoop buf len 0)
       \<and> (\<forall>w \<in> set (uploadLoop buf len 0).
             0 < wb_size w \<and> wb_size w \<le> 14 * 1024 * 1024 \<and> wb_buffer w = buf
             \<and> wb_bufferOffset w = wb_dataOffset w)
       \<and> concat (map (sliceOf src) (uploadLoop buf len 0)) = src
       \<and> performWrites src (uploadLoop buf len 0) dst = src @ drop (length src) dst
       \<and> (0 < len \<and> len * BYTES_PER_ELEMENT \<le> 14 * 1024 * 1024 \<longrightarrow>
            uploadLoop buf len 0
              = [\<lparr>wb_buffer = buf, wb_bufferOffset = 0, wb_dataOffset = 0,
                  wb_size = len * BYTES_PER_ELEMENT\<rparr>])
       \<and> (len = 0 \<longrightarrow> uploadLoop buf len 0 = [])
       \<and> (configure dev mathRandom s = Inr c \<longrightarrow>
            uploads c = uploadLoop (uniformBuffer c) (length (uniformBufferData c)) 0)"
proof -
  have 1: "contiguousFrom 0 (uploadLoop buf len 0)"
    using uploadLoop_contiguous [of 0 buf len] by simp
  have 2: "\<forall>w \<in> set (uploadLoop buf len 0).
             0 < wb_size w \<and> wb_size w \<le> 14 * 1024 * 1024 \<and> wb_buffer w = buf
             \<and> wb_bufferOffset w = wb_dataOffset w"
    using uploadLoop_sizes [of _ buf len 0] by (auto simp: maxMappingLength_bytes)
  have 3: "concat (map (sliceOf src) (uploadLoop buf len 0)) = src"
    by (simp add: uploadLoop_slices assms(1))
  have 4: "performWrites src (uploadLoop buf len 0) dst = src @ drop (length src) dst"
    using uploadLoop_writes [of len src dst 0 buf] assms by simp
  have 5: "uploadLoop buf len 0
              = [\<lparr>wb_buffer = buf, wb_bufferOffset = 0, wb_dataOffset = 0,
                  wb_size = len * BYTES_PER_ELEMENT\<rparr>]"
    if "0 < len" "len * BYTES_PER_ELEMENT \<le> 14 * 1024 * 1024"
  proof -
    have "len * BYTES_PER_ELEMENT \<le> maxMappingLength * BYTES_PER_ELEMENT"
      using that(2) by (simp only: maxMappingLength_bytes)
    then have "len \<le> maxMappingLength" by (simp add: BYTES_PER_ELEMENT_def)
    with that(1) show ?thesis by (rule uploadLoop_single)
  qed
  have 6: "uploadLoop buf len 0 = []" if "len = 0"
    using that by (simp add: uploadLoop_done)
  have 7: "uploads c = uploadLoop (uniformBuffer c) (length (uniformBufferData c)) 0"
    if "configure dev mathRandom s = Inr c"
  proof -
    from configure_Inr [OF that] obtain n where
      c: "c = configureWith s mathRandom (bufferFor dev n)
                (replicate (n * alignedUniformFloats) 0) (replicate n None)"
      by blast
    show ?thesis unfolding c by (simp add: configureWith_uploads configureWith_fields(2))
  qed
  show ?thesis using 1 2 3 4 5 6 7 by blast
qed

theorem upload_chunks_witness:
  "performWrites [1, 2, 3, 4, 5, 6, 7, 8 :: nat]
     (uploadLoop (bufferFor exampleDevice 2) 2 0) [0, 0, 0, 0, 0, 0, 0, 0, 0, 0, 0, 0]
     = [1, 2, 3, 4, 5, 6, 7, 8, 0, 0, 0, 0]
   \<and> uploadLoop (bufferFor exampleDevice 2) 2 0
     = [\<lparr>wb_buffer = bufferFor exampleDevice 2, wb_bufferOffset = 0, wb_dataOffset = 0,
         wb_size = 8\<rparr>]
   \<and> uploads exampleConfiguration
     = uploadLoop (uniformBuffer exampleConfiguration)
         (length (uniformBufferData exampleConfiguration)) 0"
proof -
  have h: "configure exampleDevice halves exampleSettings = Inr exampleConfiguration"
    by (simp add: example_configure exampleConfiguration_def)
  have a: "length [1, 2, 3, 4, 5, 6, 7, 8 :: nat] = 2 * BYTES_PER_ELEMENT"
    by (simp add: BYTES_PER_ELEMENT_def)
  have b: "2 * BYTES_PER_ELEMENT \<le> length [0, 0, 0, 0, 0, 0, 0, 0, 0, 0, 0, 0 :: nat]"
    by (simp add: BYTES_PER_ELEMENT_def)
  note t = upload_chunks [OF a b, of "bufferFor exampleDevice 2" exampleDevice halves exampleSettings
         exampleConfiguration]
  from t have "performWrites [1, 2, 3, 4, 5, 6, 7, 8 :: nat]
     (uploadLoop (bufferFor exampleDevice 2) 2 0) [0, 0, 0, 0, 0, 0, 0, 0, 0, 0, 0, 0]
     = [1, 2, 3, 4, 5, 6, 7, 8] @ drop (length [1, 2, 3, 4, 5, 6, 7, 8 :: nat]) [0, 0, 0, 0, 0, 0, 0, 0, 0, 0, 0, 0]"
    by blast
  then have p: "performWrites [1, 2, 3, 4, 5, 6, 7, 8 :: nat]
     (uploadLoop (bufferFor exampleDevice 2) 2 0) [0, 0, 0, 0, 0, 0, 0, 0, 0, 0, 0, 0]
     = [1, 2, 3, 4, 5, 6, 7, 8, 0, 0, 0, 0]"
    by simp
  from t have "0 < (2::nat) \<and> 2 * BYTES_PER_ELEMENT \<le> 14 * 1024 * 1024 \<longrightarrow>
     uploadLoop (bufferFor exampleDevice 2) 2 0
     = [\<lparr>wb_buffer = bufferFor exampleDevice 2, wb_bufferOffset = 0, wb_dataOffset = 0,
         wb_size = 2 * BYTES_PER_ELEMENT\<rparr>]"
    by blast
  then have q: "uploadLoop (bufferFor exampleDevice 2) 2 0
     = [\<lparr>wb_buffer = bufferFor exampleDevice 2, wb_bufferOffset = 0, wb_dataOffset = 0,
         wb_size = 8\<rparr>]"
    by (simp add: BYTES_PER_ELEMENT_def)
  from t h have r: "uploads exampleConfiguration
     = uploadLoop (uniformBuffer exampleConfiguration)
         (length (uniformBufferData exampleConfiguration)) 0"
    by blast
  show ?thesis using p q r by (intro conjI)
qed

text \<open>
  C5, as stated, fails at the upper ends of the ranges: when \<^verbatim>\<open>Math.random()\<close> returns
  \<open>1 - 2^-30\<close>, the scale stored for instance 0 is the binary32 value next to 0.4, which
  is greater than 0.4, the scalar stored is 2 and the scalar offset stored is 10.
\<close>

theorem field_ranges_counterexample:
  "\<not> isl (configure exampleDevice nearOne exampleSettings)
   \<and> 0 \<le> nearOne 0 \<and> nearOne 0 < 1
   \<and> \<not> uniformBufferData (projr (configure exampleDevice nearOne exampleSettings)) ! 0 < 4 / 10
   \<and> \<not> uniformBufferData (projr (configure exampleDevice nearOne exampleSettings)) ! 3 < 2
   \<and> \<not> uniformBufferData (projr (configure exampleDevice nearOne exampleSettings)) ! 4 < 10"
proof -
  have d: "uniformBufferData (projr (configure exampleDevice nearOne exampleSettings))
             = fst (fillInstances alignedUniformFloats nearOne (bufferFor exampleDevice 2) 2
                      (replicate (2 * alignedUniformFloats) 0, replicate 2 None))"
    by (simp add: example_configure configureWith_fields)
  have "5 \<le> alignedUniformFloats" by (simp add: alignedUniformFloats_eq)
  moreover have "(0::nat) < 2" by simp
  moreover have "alignedUniformFloats * 2
                   \<le> length (fst (replicate (2 * alignedUniformFloats) (0::rat), replicate 2 (None :: bind_group option)))"
    by simp
  ultimately have v:
    "fst (fillInstances alignedUniformFloats nearOne (bufferFor exampleDevice 2) 2
            (replicate (2 * alignedUniformFloats) 0, replicate 2 None)) ! (alignedUniformFloats * 0)
       = scaleOf (nearOne (5 * 0))
     \<and> fst (fillInstances alignedUniformFloats nearOne (bufferFor exampleDevice 2) 2
            (replicate (2 * alignedUniformFloats) 0, replicate 2 None)) ! (alignedUniformFloats * 0 + 1)
       = offsetOf (nearOne (5 * 0 + 1))
     \<and> fst (fillInstances alignedUniformFloats nearOne (bufferFor exampleDevice 2) 2
            (replicate (2 * alignedUniformFloats) 0, replicate 2 None)) ! (alignedUniformFloats * 0 + 2)
       = offsetOf (nearOne (5 * 0 + 2))
     \<and> fst (fillInstances alignedUniformFloats nearOne (bufferFor exampleDevice 2) 2
            (replicate (2 * alignedUniformFloats) 0, replicate 2 None)) ! (alignedUniformFloats * 0 + 3)
       = scalarOf (nearOne (5 * 0 + 3))
     \<and> fst (fillInstances alignedUniformFloats nearOne (bufferFor exampleDevice 2) 2
            (replicate (2 * alignedUniformFloats) 0, replicate 2 None)) ! (alignedUniformFloats * 0 + 4)
       = scalarOffsetOf (nearOne (5 * 0 + 4))"
    by (rule data_fillInstances)
  have e: "scaleOf (nearOne 0) = 13421773 / 33554432" "scalarOf (nearOne 3) = 2"
    "scalarOffsetOf (nearOne 4) = 10"
    unfolding nearOne_def by (rule near_one_fields)+
  have r: "0 \<le> nearOne 0" "nearOne 0 < 1" by (simp_all add: nearOne_def)
  from v have "fst (fillInstances alignedUniformFloats nearOne (bufferFor exampleDevice 2) 2
            (replicate (2 * alignedUniformFloats) 0, replicate 2 None)) ! 0 = scaleOf (nearOne 0)"
    and "fst (fillInstances alignedUniformFloats nearOne (bufferFor exampleDevice 2) 2
            (replicate (2 * alignedUniformFloats) 0, replicate 2 None)) ! 3 = scalarOf (nearOne 3)"
    and "fst (fillInstances alignedUniformFloats nearOne (bufferFor exampleDevice 2) 2
            (replicate (2 * alignedUniformFloats) 0, replicate 2 None)) ! 4 = scalarOffsetOf (nearOne 4)"
    by simp_all
  moreover have "\<not> isl (configure exampleDevice nearOne exampleSettings)"
    by (simp add: example_configure)
  ultimately show ?thesis
    unfolding d e using r by simp
qed

text \<open>
  C5, amended. For every count \<open>n\<close> and every stride of at least 5 elements (a stride of
  \<open>4 * stride\<close> bytes), the loop leaves a host buffer of \<open>n * stride\<close> elements, that is
  \<open>n\<close> times the stride in bytes. For every instance \<open>i\<close> the five fields are the
  elements \<open>stride * i + 0, .., stride * i + 4\<close>, at the bytes 0, 4, 8, 12 and 16 of slot
  \<open>i\<close> and before the start of slot \<open>i + 1\<close>; they hold the values computed from the
  five draws of the instance. When the draws are in \<open>[0, 1)\<close>, the stored scale is in
  \<open>[0.2, f]\<close> where \<open>f = 13421773 / 33554432\<close> is 0.4 rounded to binary32, the stored
  offsets are in \<open>(-0.9, 0.9)\<close>, the stored scalar is in \<open>[0.5, 2.0]\<close> and the stored
  scalar offset is in \<open>[0.0, 10.0]\<close>. \<^verbatim>\<open>configure\<close> runs the loop with the stride of 64
  elements on a zeroed array of \<open>n * 64\<close> elements.
\<close>

theorem instance_table:
  assumes "5 \<le> stride" and "\<forall>k. 0 \<le> mathRandom k \<and> mathRandom k < 1"
    and "data = fst (fillInstances stride mathRandom buf n (replicate (n * stride) 0, replicate n None))"
  shows "length data * BYTES_PER_ELEMENT = n * (stride * BYTES_PER_ELEMENT)
       \<and> (\<forall>i<n.
             data ! (stride * i + 0) = scaleOf (mathRandom (5 * i + 0))
           \<and> data ! (stride * i + 1) = offsetOf (mathRandom (5 * i + 1))
           \<and> data ! (stride * i + 2) = offsetOf (mathRandom (5 * i + 2))
           \<and> data ! (stride * i + 3) = scalarOf (mathRandom (5 * i + 3))
           \<and> data ! (stride * i + 4) = scalarOffsetOf (mathRandom (5 * i + 4))
           \<and> (\<forall>k<5. (stride * i + k) * BYTES_PER_ELEMENT = i * (stride * BYTES_PER_ELEMENT) + 4 * k
                    \<and> (stride * i + k) * BYTES_PER_ELEMENT + 4 \<le> (i + 1) * (stride * BYTES_PER_ELEMENT)
                    \<and> stride * i + k < length data)
           \<and> 2 / 10 \<le> data ! (stride * i + 0) \<and> data ! (stride * i + 0) \<le> 13421773 / 33554432
           \<and> - (9 / 10) < data ! (stride * i + 1) \<and> data ! (stride * i + 1) < 9 / 10
           \<and> - (9 / 10) < data ! (stride * i + 2) \<and> data ! (stride * i + 2) < 9 / 10
           \<and> 1 / 2 \<le> data ! (stride * i + 3) \<and> data ! (stride * i + 3) \<le> 2
           \<and> 0 \<le> data ! (stride * i + 4) \<and> data ! (stride * i + 4) \<le> 10)
       \<and> (configure dev mathRandom s = Inr c \<longrightarrow>
            uniformBufferData c
              = fst (fillInstances alignedUniformFloats mathRandom (uniformBuffer c)
                       (numTriangles_const c)
                       (replicate (numTriangles_const c * alignedUniformFloats) 0,
                        replicate (numTriangles_const c) None))
            \<and> alignedUniformFloats = 64
            \<and> alignedUniformFloats * BYTES_PER_ELEMENT = alignedUniformBytes)"
proof -
  have len: "length data = n * stride"
    by (simp add: assms(3) length_fillInstances)
  have r: "0 \<le> mathRandom k" "mathRandom k < 1" for k
    using assms(2) by simp_all
  have inst: "data ! (stride * i + 0) = scaleOf (mathRandom (5 * i + 0))
           \<and> data ! (stride * i + 1) = offsetOf (mathRandom (5 * i + 1))
           \<and> data ! (stride * i + 2) = offsetOf (mathRandom (5 * i + 2))
           \<and> data ! (stride * i + 3) = scalarOf (mathRandom (5 * i + 3))
           \<and> data ! (stride * i + 4) = scalarOffsetOf (mathRandom (5 * i + 4))
           \<and> (\<forall>k<5. (stride * i + k) * BYTES_PER_ELEMENT = i * (stride * BYTES_PER_ELEMENT) + 4 * k
                    \<and> (stride * i + k) * BYTES_PER_ELEMENT + 4 \<le> (i + 1) * (stride * BYTES_PER_ELEMENT)
                    \<and> stride * i + k < length data)
           \<and> 2 / 10 \<le> data ! (stride * i + 0) \<and> data ! (stride * i + 0) \<le> 13421773 / 33554432
           \<and> - (9 / 10) < data ! (stride * i + 1) \<and> data ! (stride * i + 1) < 9 / 10
           \<and> - (9 / 10) < data ! (stride * i + 2) \<and> data ! (stride * i + 2) < 9 / 10
           \<and> 1 / 2 \<le> data ! (stride * i + 3) \<and> data ! (stride * i + 3) \<le> 2
           \<and> 0 \<le> data ! (stride * i + 4) \<and> data ! (stride * i + 4) \<le> 10"
    if i: "i < n" for i
  proof -
    have room: "stride * n \<le> length (fst (replicate (n * stride) (0::rat), replicate n (None :: bind_group option)))"
      by (simp add: mult.commute)
    note v = data_fillInstances [OF assms(1) i room, of mathRandom buf, folded assms(3)]
    have v0: "data ! (stride * i + 0) = scaleOf (mathRandom (5 * i + 0))"
      and v1: "data ! (stride * i + 1) = offsetOf (mathRandom (5 * i + 1))"
      and v2: "data ! (stride * i + 2) = offsetOf (mathRandom (5 * i + 2))"
      and v3: "data ! (stride * i + 3) = scalarOf (mathRandom (5 * i + 3))"
      and v4: "data ! (stride * i + 4) = scalarOffsetOf (mathRandom (5 * i + 4))"
      using v by simp_all
    have pos: "(stride * i + k) * BYTES_PER_ELEMENT = i * (stride * BYTES_PER_ELEMENT) + 4 * k
             \<and> (stride * i + k) * BYTES_PER_ELEMENT + 4 \<le> (i + 1) * (stride * BYTES_PER_ELEMENT)
             \<and> stride * i + k < length data" if k: "k < 5" for k
    proof -
      have "stride * i + k < stride * n" using assms(1) i k by (rule slot_index_less)
      moreover have "stride * i + k + 1 \<le> stride * i + stride" using assms(1) k by simp
      ultimately show ?thesis by (simp add: len BYTES_PER_ELEMENT_def algebra_simps)
    qed
    have s0: "2 / 10 \<le> scaleOf (mathRandom (5 * i + 0))"
      using scaleOf_range(1) [OF r, of "5 * i + 0"] by simp
    have s1: "scaleOf (mathRandom (5 * i + 0)) \<le> 13421773 / 33554432"
      using scaleOf_range(2) [OF r, of "5 * i + 0"] by simp
    have o: "- (9 / 10) < offsetOf (mathRandom j)" "offsetOf (mathRandom j) < 9 / 10" for j
      using offsetOf_range [OF r, of j] by simp_all
    note q = scalarOf_range [OF r, of "5 * i + 3"] scalarOffsetOf_range [OF r, of "5 * i + 4"]
    show ?thesis
      unfolding v0 v1 v2 v3 v4 using pos s0 s1 o q by blast
  qed
  have conf: "uniformBufferData c
              = fst (fillInstances alignedUniformFloats mathRandom (uniformBuffer c)
                       (numTriangles_const c)
                       (replicate (numTriangles_const c * alignedUniformFloats) 0,
                        replicate (numTriangles_const c) None))
            \<and> alignedUniformFloats = 64
            \<and> alignedUniformFloats * BYTES_PER_ELEMENT = alignedUniformBytes"
    if "configure dev mathRandom s = Inr c"
  proof -
    from configure_Inr [OF that] obtain m where
      c: "c = configureWith s mathRandom (bufferFor dev m)
                (replicate (m * alignedUniformFloats) 0) (replicate m None)"
      by blast
    show ?thesis
      by (simp add: c configureWith_fields alignedUniformFloats_eq alignedUniformBytes_eq
            BYTES_PER_ELEMENT_def)
  qed
  have bytes: "length data * BYTES_PER_ELEMENT = n * (stride * BYTES_PER_ELEMENT)"
    by (simp add: len)
  show ?thesis
  proof (intro conjI)
    show "length data * BYTES_PER_ELEMENT = n * (stride * BYTES_PER_ELEMENT)" by (rule bytes)
  qed (use inst conf in blast)+
qed

theorem instance_table_witness:
  "uniformBufferData exampleConfiguration ! 64 = 5033165 / 16777216
   \<and> uniformBufferData exampleConfiguration ! 65 = 0
   \<and> uniformBufferData exampleConfiguration ! 67 = 5 / 4
   \<and> uniformBufferData exampleConfiguration ! 68 = 5
   \<and> length (uniformBufferData exampleConfiguration) = 128"
proof -
  have h: "configure exampleDevice halves exampleSettings = Inr exampleConfiguration"
    by (simp add: example_configure exampleConfiguration_def)
  have a: "5 \<le> alignedUniformFloats" by (simp add: alignedUniformFloats_eq)
  have b: "\<forall>k. 0 \<le> halves k \<and> halves k < 1" by (simp add: halves_def)
  have d: "uniformBufferData exampleConfiguration
           = fst (fillInstances alignedUniformFloats halves (bufferFor exampleDevice 2) 2
                    (replicate (2 * alignedUniformFloats) 0, replicate 2 None))"
    by (simp add: exampleConfiguration_def configureWith_fields)
  have e: "scaleOf (1 / 2) = 5033165 / 16777216" "offsetOf (1 / 2) = 0" "scalarOf (1 / 2) = 5 / 4"
    "scalarOffsetOf (1 / 2) = 5"
    by code_simp+
  note t = instance_table [OF a b d, of exampleDevice exampleSettings exampleConfiguration]
  from t have "length (uniformBufferData exampleConfiguration) * BYTES_PER_ELEMENT
                 = 2 * (alignedUniformFloats * BYTES_PER_ELEMENT)"
    by blast
  then have l: "length (uniformBufferData exampleConfiguration) = 128"
    by (simp add: alignedUniformFloats_eq BYTES_PER_ELEMENT_def)
  from t have "\<forall>i<2. uniformBufferData exampleConfiguration ! (alignedUniformFloats * i + 0) = scaleOf (halves (5 * i + 0))
           \<and> uniformBufferData exampleConfiguration ! (alignedUniformFloats * i + 1) = offsetOf (halves (5 * i + 1))
           \<and> uniformBufferData exampleConfiguration ! (alignedUniformFloats * i + 3) = scalarOf (halves (5 * i + 3))
           \<and> uniformBufferData exampleConfiguration ! (alignedUniformFloats * i + 4) = scalarOffsetOf (halves (5 * i + 4))"
    by blast
  moreover have "(1::nat) < 2" by simp
  ultimately have "uniformBufferData exampleConfiguration ! (alignedUniformFloats * 1 + 0) = scaleOf (halves (5 * 1 + 0))
           \<and> uniformBufferData exampleConfiguration ! (alignedUniformFloats * 1 + 1) = offsetOf (halves (5 * 1 + 1))
           \<and> uniformBufferData exampleConfiguration ! (alignedUniformFloats * 1 + 3) = scalarOf (halves (5 * 1 + 3))
           \<and> uniformBufferData exampleConfiguration ! (alignedUniformFloats * 1 + 4) = scalarOffsetOf (halves (5 * 1 + 4))"
    by blast
  then show ?thesis
    using l by (simp add: alignedUniformFloats_eq halves_def e)
qed

text \<open>
  C6. On the first call of a draw function (\<^verbatim>\<open>startTime\<close> still undefined), with any
  timestamp \<open>t0\<close>, \<^verbatim>\<open>startTime\<close> becomes \<open>t0\<close> and the time written to the time slot of
  the uniform buffer is 0. A later call with the timestamp \<open>t0 + 1000\<close> writes 1 and keeps
  \<^verbatim>\<open>startTime\<close>. In \<^verbatim>\<open>frame\<close>, the frame time is 0 while there is no previous timestamp,
  so that the first frame leaves the frame-time average at 0. The state that \<^verbatim>\<open>init\<close>
  sets up is such a state: no previous timestamp, no averages, \<^verbatim>\<open>startTime\<close> undefined.
\<close>

theorem first_tick:
  assumes "startTime c = None"
  shows "startTime (fst (doDraw s c t0)) = Some t0
       \<and> written_time (snd (doDraw s c t0)) = 0
       \<and> written_buffer (snd (doDraw s c t0)) = uniformBuffer c
       \<and> written_offset (snd (doDraw s c t0)) = timeOffset c
       \<and> written_time (snd (doDraw s' (fst (doDraw s c t0)) (t0 + 1000))) = 1
       \<and> startTime (fst (doDraw s' (fst (doDraw s c t0)) (t0 + 1000))) = Some t0
       \<and> (previousFrameTimestamp a = None \<longrightarrow> frameTime a t = 0)
       \<and> (previousFrameTimestamp a = None \<and> frameTimeAvg a = None \<longrightarrow>
            frameTimeAvg (fst (frame a t now0 now1)) = Some 0)
       \<and> (previousFrameTimestamp a = Some p \<longrightarrow> frameTime a t = f64_sub t p)
       \<and> (init dev mathRandom = Inr a0 \<longrightarrow>
            previousFrameTimestamp a0 = None \<and> frameTimeAvg a0 = None \<and> jsTimeAvg a0 = None
            \<and> startTime (doDraw_var a0) = None)"
proof -
  have 1: "startTime (fst (doDraw s c t0)) = Some t0"
    by (simp add: doDraw_fields assms)
  have 2: "written_time (snd (doDraw s c t0)) = 0"
    by (simp add: doDraw_fields assms first_elapsed)
  have 3: "written_time (snd (doDraw s' (fst (doDraw s c t0)) (t0 + 1000))) = 1"
    by (simp add: doDraw_fields(2) 1 second_elapsed)
  have 4: "startTime (fst (doDraw s' (fst (doDraw s c t0)) (t0 + 1000))) = Some t0"
    by (simp add: doDraw_fields(1) assms)
  have 5: "frameTimeAvg (fst (frame a t now0 now1)) = Some 0"
    if "previousFrameTimestamp a = None" "frameTimeAvg a = None"
    by (simp add: frame_fields that frameTime_def updateAvg_def smooth_0)
  have 6: "previousFrameTimestamp a0 = None \<and> frameTimeAvg a0 = None \<and> jsTimeAvg a0 = None
            \<and> startTime (doDraw_var a0) = None"
    if "init dev mathRandom = Inr a0"
  proof -
    from that obtain c0 where c0: "configure dev mathRandom initialSettings = Inr c0"
      and a0: "a0 = \<lparr>settings = initialSettings, doDraw_var = c0, previousFrameTimestamp = None,
                    jsTimeAvg = None, frameTimeAvg = None\<rparr>"
      by (auto simp: init_def split: sum.splits)
    from configure_Inr [OF c0] obtain n where
      "c0 = configureWith initialSettings mathRandom (bufferFor dev n)
              (replicate (n * alignedUniformFloats) 0) (replicate n None)"
      by blast
    then show ?thesis by (simp add: a0 configureWith_fields)
  qed
  show ?thesis
    using 1 2 3 4 5 6 by (simp add: doDraw_fields frameTime_def)
qed

theorem first_tick_witness:
  "startTime (fst (doDraw exampleSettings exampleConfiguration 5000)) = Some 5000
   \<and> written_time (snd (doDraw exampleSettings exampleConfiguration 5000)) = 0
   \<and> written_time (snd (doDraw exampleSettings
         (fst (doDraw exampleSettings exampleConfiguration 5000)) 6000)) = 1
   \<and> frameTime exampleApp 5000 = 0
   \<and> frameTimeAvg (fst (frame exampleApp 5000 100 103)) = Some 0"
proof -
  have h: "startTime exampleConfiguration = None"
    by (simp add: exampleConfiguration_def configureWith_fields)
  have p: "previousFrameTimestamp exampleApp = None" "frameTimeAvg exampleApp = None"
    by (simp_all add: exampleApp_def)
  note t = first_tick [OF h, where s = exampleSettings and t0 = 5000 and s' = exampleSettings
                         and a = exampleApp and t = 5000 and ?now0.0 = 100 and ?now1.0 = 103]
  from t have "startTime (fst (doDraw exampleSettings exampleConfiguration 5000)) = Some 5000"
    and "written_time (snd (doDraw exampleSettings exampleConfiguration 5000)) = 0"
    and "written_time (snd (doDraw exampleSettings
           (fst (doDraw exampleSettings exampleConfiguration 5000)) (5000 + 1000))) = 1"
    and "previousFrameTimestamp exampleApp = None \<longrightarrow> frameTime exampleApp 5000 = 0"
    and "previousFrameTimestamp exampleApp = None \<and> frameTimeAvg exampleApp = None \<longrightarrow>
           frameTimeAvg (fst (frame exampleApp 5000 100 103)) = Some 0"
    by blast+
  then show ?thesis using p by simp
qed

text \<open>
  C7, as stated, fails: when the first sample of the submission time is 3 ms, the average
  after the first update is \<open>3 + 2^-51\<close> (3.0000000000000004), not the sample.
\<close>

theorem first_average_counterexample:
  "jsTimeAvg exampleApp = None
   \<and> f64_sub 103 100 = 3
   \<and> jsTimeAvg (fst (frame exampleApp 5000 100 103)) = Some (6755399441055745 / 2251799813685248)
   \<and> jsTimeAvg (fst (frame exampleApp 5000 100 103)) \<noteq> Some (f64_sub 103 100)"
proof -
  have s: "f64_sub 103 100 = 3" by code_simp
  show ?thesis
    unfolding frame_fields s by (simp add: exampleApp_def updateAvg_def smooth_3)
qed

text \<open>
  C7, amended. Each frame updates both averages by \<open>avg = fl(fl(fl(1 - w) * avg) + fl(w *
  sample))\<close>, the rule \<open>0.8 * avg + 0.2 * sample\<close> in binary64 arithmetic with \<open>w\<close> the
  Number 0.2, after seeding an undefined average with the sample. For a sample \<open>s\<close> that
  is 0 or of magnitude between \<open>2^-1000\<close> and \<open>2^1000\<close>, the average after the first
  update is the sample up to rounding, \<open>\<bar>avg - s\<bar> \<le> \<bar>s\<bar> / 2^51\<close>, and exactly the
  sample when it is 0; feeding the same sample again and again keeps the average within
  \<open>\<bar>s\<bar> / 2^49\<close> of it.
\<close>

theorem average_update:
  assumes "s = 0 \<or> (1 / 2 ^ 1000 \<le> \<bar>s\<bar> \<and> \<bar>s\<bar> \<le> 2 ^ 1000)"
  shows "frameTimeAvg (fst (frame a t now0 now1)) = updateAvg (frameTimeAvg a) (frameTime a t)
       \<and> jsTimeAvg (fst (frame a t now0 now1)) = updateAvg (jsTimeAvg a) (f64_sub now1 now0)
       \<and> updateAvg None s = Some (smooth s s)
       \<and> updateAvg (Some v) s = Some (smooth v s)
       \<and> smooth v s = fl64 (fl64 (fl64 (1 - fl64 (2 / 10)) * v) + fl64 (fl64 (2 / 10) * s))
       \<and> \<bar>smooth s s - s\<bar> \<le> \<bar>s\<bar> / 2 ^ 51
       \<and> (s = 0 \<longrightarrow> smooth s s = s)
       \<and> (\<forall>n>0. \<exists>avg. feedSame s n = Some avg \<and> \<bar>avg - s\<bar> \<le> \<bar>s\<bar> / 2 ^ 49)"
proof -
  from assms have r: "s = 0 \<or> 1 / 2 ^ 1000 \<le> \<bar>s\<bar>" by blast
  have 1: "smooth v s = fl64 (fl64 (fl64 (1 - fl64 (2 / 10)) * v) + fl64 (fl64 (2 / 10) * s))"
    unfolding smooth_def Let_def f64_add_def f64_mul_def f64_sub_def ..
  have 2: "\<exists>avg. feedSame s n = Some avg \<and> \<bar>avg - s\<bar> \<le> \<bar>s\<bar> / 2 ^ 49" if "0 < n" for n
  proof -
    from that obtain m where "n = Suc m" by (cases n) simp_all
    then show ?thesis using feedSame_close [OF r, of m] by simp
  qed
  have 3: "smooth s s = s" if "s = 0"
    using that by (simp add: smooth_0)
  show ?thesis
    using 1 2 3 smooth_first [OF r] by (simp add: frame_fields updateAvg_def)
qed

theorem average_update_witness:
  "jsTimeAvg (fst (frame exampleApp 5000 100 103)) = updateAvg None (f64_sub 103 100)
   \<and> \<bar>smooth 3 3 - 3\<bar> \<le> 3 / 2 ^ 51
   \<and> (\<exists>avg. feedSame 3 2 = Some avg \<and> \<bar>avg - 3\<bar> \<le> 3 / 2 ^ 49)"
proof -
  have h: "(3::rat) = 0 \<or> (1 / 2 ^ 1000 \<le> \<bar>3::rat\<bar> \<and> \<bar>3::rat\<bar> \<le> 2 ^ 1000)"
  proof -
    have "(1::rat) / 2 ^ 1000 \<le> 1" by (simp add: divide_le_eq_1)
    moreover have "(1::rat) \<le> 2 ^ 1000" by (rule one_le_power) simp
    moreover have "(2::rat) ^ 2 \<le> 2 ^ 1000" by (rule power_increasing) simp_all
    ultimately show ?thesis by simp
  qed
  note t = average_update [OF h, of exampleApp 5000 100 103]
  from t have "jsTimeAvg (fst (frame exampleApp 5000 100 103)) = updateAvg (jsTimeAvg exampleApp) (f64_sub 103 100)"
    and "\<bar>smooth 3 3 - 3\<bar> \<le> \<bar>3::rat\<bar> / 2 ^ 51"
    and "\<forall>n>0. \<exists>avg. feedSame 3 n = Some avg \<and> \<bar>avg - 3\<bar> \<le> \<bar>3::rat\<bar> / 2 ^ 49"
    by blast+
  moreover have "(0::nat) < 2" by simp
  ultimately have "jsTimeAvg (fst (frame exampleApp 5000 100 103)) = updateAvg (jsTimeAvg exampleApp) (f64_sub 103 100)"
    and "\<bar>smooth 3 3 - 3\<bar> \<le> \<bar>3::rat\<bar> / 2 ^ 51"
    and "\<exists>avg. feedSame 3 2 = Some avg \<and> \<bar>avg - 3\<bar> \<le> \<bar>3::rat\<bar> / 2 ^ 49"
    by blast+
  then show ?thesis by (simp add: exampleApp_def)
qed

text \<open>
  C8. When the count given to the \<^verbatim>\<open>change\<close> handler is negative or not finite,
  \<^verbatim>\<open>configure\<close> throws (the \<^verbatim>\<open>RangeError\<close> of \<^verbatim>\<open>new Float32Array\<close> or of \<^verbatim>\<open>new Array\<close>,
  unless \<^verbatim>\<open>createBuffer\<close> has thrown before), the variable \<^verbatim>\<open>doDraw\<close> keeps the closure
  it held, and that closure draws as before: for every timestamp it writes the same time and
  submits the same commands.
\<close>

theorem invalid_count_rejected:
  assumes "negativeOrNonFinite v"
  shows "(\<exists>e. configure dev mathRandom ((settings a)\<lparr>numTriangles := v\<rparr>) = Inl e)
       \<and> (\<exists>e. snd (numTrianglesChange dev mathRandom v a) = Some e)
       \<and> doDraw_var (fst (numTrianglesChange dev mathRandom v a)) = doDraw_var a
       \<and> doDraw (settings (fst (numTrianglesChange dev mathRandom v a)))
           (doDraw_var (fst (numTrianglesChange dev mathRandom v a))) t
           = doDraw (settings a) (doDraw_var a) t
       \<and> snd (frame (fst (numTrianglesChange dev mathRandom v a)) t now0 now1)
           = snd (frame a t now0 now1)
       \<and> doDraw_var (fst (frame (fst (numTrianglesChange dev mathRandom v a)) t now0 now1))
           = doDraw_var (fst (frame a t now0 now1))"
proof -
  define a1 where "a1 = a\<lparr>settings := (settings a)\<lparr>numTriangles := v\<rparr>\<rparr>"
  have bad: "negativeOrNonFinite (numTriangles (settings a1))"
    using assms by (simp add: a1_def)
  have "numTriangles ((settings a)\<lparr>numTriangles := v\<rparr>) = NaN
      \<or> numTriangles ((settings a)\<lparr>numTriangles := v\<rparr>) = PosInfinity
      \<or> numTriangles ((settings a)\<lparr>numTriangles := v\<rparr>) = NegInfinity
      \<or> (\<exists>x. numTriangles ((settings a)\<lparr>numTriangles := v\<rparr>) = Finite x \<and> x < 0)"
    using assms by (auto simp: negativeOrNonFinite_def split: number.splits)
  then have 1: "\<exists>e. configure dev mathRandom ((settings a)\<lparr>numTriangles := v\<rparr>) = Inl e"
    by (rule configure_rejects)
  have f: "fst (numTrianglesChange dev mathRandom v a) = a1"
    unfolding numTrianglesChange_def a1_def [symmetric] using bad by (rule updateSettings_rejects)
  have 2: "\<exists>e. snd (numTrianglesChange dev mathRandom v a) = Some e"
    unfolding numTrianglesChange_def a1_def [symmetric] using bad by (rule updateSettings_rejects)
  have d: "doDraw (settings a1) (doDraw_var a1) t = doDraw (settings a) (doDraw_var a) t"
    by (simp add: a1_def doDraw_numTriangles_update)
  show ?thesis
    unfolding f using 1 2 d by (simp add: frame_fields) (simp add: a1_def)
qed

theorem invalid_count_rejected_witness:
  "(\<exists>e. snd (numTrianglesChange exampleDevice halves (Finite (- 1)) exampleApp) = Some e)
   \<and> doDraw_var (fst (numTrianglesChange exampleDevice halves (Finite (- 1)) exampleApp))
       = exampleConfiguration
   \<and> (\<exists>e. snd (numTrianglesChange exampleDevice halves NaN exampleApp) = Some e)
   \<and> doDraw_var (fst (numTrianglesChange exampleDevice halves NaN exampleApp))
       = exampleConfiguration"
proof -
  have 1: "negativeOrNonFinite (Finite (- 1))" by (simp add: negativeOrNonFinite_def)
  have 2: "negativeOrNonFinite NaN" by (simp add: negativeOrNonFinite_def)
  have d: "doDraw_var exampleApp = exampleConfiguration" by (simp add: exampleApp_def)
  from invalid_count_rejected [OF 1, of exampleDevice halves exampleApp 0 0 0]
       invalid_count_rejected [OF 2, of exampleDevice halves exampleApp 0 0 0]
  show ?thesis unfolding d by blast
qed

text \<open>
  C9. Whenever \<^verbatim>\<open>configure\<close> returns, the \<^verbatim>\<open>startTime\<close> of the closure it returns is
  undefined. So after each of the three event handlers has run without an exception, the
  first call of the new draw function, whatever the clock of the closure before, sets
  \<^verbatim>\<open>startTime\<close> to its own timestamp and writes the time 0.
\<close>

theorem reconfigure_restarts_clock:
  assumes "configure dev mathRandom s = Inr c"
  shows "startTime c = None
       \<and> written_time (snd (doDraw s' c t)) = 0
       \<and> startTime (fst (doDraw s' c t)) = Some t
       \<and> (\<forall>a a'. numTrianglesChange dev mathRandom v a = (a', None)
             \<or> dynamicOffsetsInput dev mathRandom b a = (a', None)
             \<or> renderBundlesInput dev mathRandom b a = (a', None)
             \<longrightarrow> startTime (doDraw_var a') = None
               \<and> written_time (snd (frame a' t now0 now1)) = 0
               \<and> startTime (doDraw_var (fst (frame a' t now0 now1))) = Some t)"
proof -
  have fresh: "startTime c' = None" if "configure dev' mathRandom' s'' = Inr c'"
    for dev' mathRandom' s'' c'
  proof -
    from configure_Inr [OF that] obtain n where
      "c' = configureWith s'' mathRandom' (bufferFor dev' n)
              (replicate (n * alignedUniformFloats) 0) (replicate n None)"
      by blast
    then show ?thesis by (simp add: configureWith_fields)
  qed
  have tick: "written_time (snd (doDraw s1 c1 t)) = 0 \<and> startTime (fst (doDraw s1 c1 t)) = Some t"
    if "startTime c1 = None" for s1 c1
    by (simp add: doDraw_fields that first_elapsed)
  have handler: "startTime (doDraw_var a') = None
               \<and> written_time (snd (frame a' t now0 now1)) = 0
               \<and> startTime (doDraw_var (fst (frame a' t now0 now1))) = Some t"
    if "updateSettings dev mathRandom a0 = (a', None)" for a0 a'
  proof -
    have "startTime (doDraw_var a') = None"
      using updateSettings_accepts(1) [OF that] by (rule fresh)
    then show ?thesis using tick [of "doDraw_var a'" "settings a'"] by (simp add: frame_fields)
  qed
  have "startTime (doDraw_var a') = None
               \<and> written_time (snd (frame a' t now0 now1)) = 0
               \<and> startTime (doDraw_var (fst (frame a' t now0 now1))) = Some t"
    if "numTrianglesChange dev mathRandom v a = (a', None)
             \<or> dynamicOffsetsInput dev mathRandom b a = (a', None)
             \<or> renderBundlesInput dev mathRandom b a = (a', None)" for a a'
    using that handler
    unfolding numTrianglesChange_def dynamicOffsetsInput_def renderBundlesInput_def by blast
  then show ?thesis
    using fresh [OF assms] tick [OF fresh [OF assms], of s'] by blast
qed

theorem reconfigure_restarts_clock_witness:
  "startTime (fst (doDraw exampleSettings exampleConfiguration 5000)) = Some 5000
   \<and> numTrianglesChange exampleDevice halves (Finite 2)
        (exampleApp\<lparr>doDraw_var := fst (doDraw exampleSettings exampleConfiguration 5000)\<rparr>)
      = (exampleApp, None)
   \<and> startTime (doDraw_var exampleApp) = None
   \<and> written_time (snd (frame exampleApp 9000 100 103)) = 0
   \<and> startTime (doDraw_var (fst (frame exampleApp 9000 100 103))) = Some 9000"
proof -
  have h: "configure exampleDevice halves exampleSettings = Inr exampleConfiguration"
    by (simp add: example_configure exampleConfiguration_def)
  define running where
    "running = exampleApp\<lparr>doDraw_var := fst (doDraw exampleSettings exampleConfiguration 5000)\<rparr>"
  have st: "startTime (fst (doDraw exampleSettings exampleConfiguration 5000)) = Some 5000"
    by (simp add: doDraw_fields exampleConfiguration_def configureWith_fields)
  have s: "(settings running)\<lparr>numTriangles := Finite 2\<rparr> = exampleSettings"
    by (simp add: running_def exampleApp_def exampleSettings_def)
  have e: "numTrianglesChange exampleDevice halves (Finite 2) running = (exampleApp, None)"
    by (simp add: numTrianglesChange_def updateSettings_def h s)
       (simp add: running_def exampleApp_def)
  note t = reconfigure_restarts_clock [OF h, of exampleSettings 9000 "Finite 2" True 100 103]
  from t have "numTrianglesChange exampleDevice halves (Finite 2) running = (exampleApp, None)
             \<or> dynamicOffsetsInput exampleDevice halves True running = (exampleApp, None)
             \<or> renderBundlesInput exampleDevice halves True running = (exampleApp, None)
             \<longrightarrow> startTime (doDraw_var exampleApp) = None
               \<and> written_time (snd (frame exampleApp 9000 100 103)) = 0
               \<and> startTime (doDraw_var (fst (frame exampleApp 9000 100 103))) = Some 9000"
    by blast
  with e st show ?thesis unfolding running_def by blast
qed

text \<open>
  C10. \<^verbatim>\<open>recordRenderPass\<close> reads \<^verbatim>\<open>settings.dynamicOffsets\<close> when \<^verbatim>\<open>doDraw\<close> calls it,
  while the number of instances, the bind groups and the bundle are those of the
  \<^verbatim>\<open>configure\<close> call that made the closure. In the direct path the pipeline and the way
  group 1 is bound follow the current value of the flag, and nothing else of the current
  settings; the bundle keeps the value of the flag at \<^verbatim>\<open>configure\<close>. The two sequences
  are equal exactly when the flag has its value of the \<^verbatim>\<open>configure\<close> call.
\<close>

theorem direct_path_tracks_flag:
  assumes "configure dev mathRandom s = Inr c"
  shows "submitted (snd (doDraw s' c t))
           = (if renderBundles s' then [ExecuteBundles [renderBundle c]]
              else map Encoded (directCommands s' c))
       \<and> renderBundle c = directCommands s c
       \<and> directCommands s' c = directCommands (s\<lparr>dynamicOffsets := dynamicOffsets s'\<rparr>) c
       \<and> hd (directCommands s' c)
           = SetPipeline (if dynamicOffsets s' then dynamicPipeline else pipeline)
       \<and> (\<forall>i<numTriangles_const c.
            directCommands s' c ! (3 + 2 * i)
              = (if dynamicOffsets s'
                 then SetBindGroup 1 (Some (dynamicBindGroup c)) [i * alignedUniformBytes]
                 else SetBindGroup 1 (element (bindGroups c) i) []))
       \<and> length (directCommands s' c) = 3 + 2 * numTriangles_const c
       \<and> (directCommands s' c = renderBundle c \<longleftrightarrow> dynamicOffsets s' = dynamicOffsets s)"
proof -
  from configure_Inr [OF assms(1)] obtain n where
    c: "c = configureWith s mathRandom (bufferFor dev n)
              (replicate (n * alignedUniformFloats) 0) (replicate n None)"
    by blast
  have b: "renderBundle c = directCommands s c"
    unfolding c by (rule configureWith_renderBundle)
  have flag: "directCommands s1 c = directCommands s2 c" if "dynamicOffsets s1 = dynamicOffsets s2"
    for s1 s2
  proof -
    have "instanceCommands s1 (bindGroups c) (dynamicBindGroup c)
            = instanceCommands s2 (bindGroups c) (dynamicBindGroup c)"
      by (rule ext) (simp add: instanceCommands_def that)
    then show ?thesis by (simp add: directCommands_eq that)
  qed
  have hd: "hd (directCommands s' c)
              = SetPipeline (if dynamicOffsets s' then dynamicPipeline else pipeline)"
    by (simp add: directCommands_eq)
  have nth: "directCommands s' c ! (3 + 2 * i)
              = (if dynamicOffsets s'
                 then SetBindGroup 1 (Some (dynamicBindGroup c)) [i * alignedUniformBytes]
                 else SetBindGroup 1 (element (bindGroups c) i) [])"
    if "i < numTriangles_const c" for i
    by (simp add: nth_directCommands [OF that] instanceCommands_def)
  have len: "length (directCommands s' c) = 3 + 2 * numTriangles_const c"
    by (simp add: directCommands_eq length_concat_instanceCommands del: length_concat)
  have iff: "directCommands s' c = directCommands s c \<longleftrightarrow> dynamicOffsets s' = dynamicOffsets s"
  proof
    assume "directCommands s' c = directCommands s c"
    then have "hd (directCommands s' c) = hd (directCommands s c)" by simp
    then show "dynamicOffsets s' = dynamicOffsets s"
      by (simp add: directCommands_eq split: if_splits)
  next
    assume "dynamicOffsets s' = dynamicOffsets s"
    then show "directCommands s' c = directCommands s c" by (rule flag)
  qed
  have upd: "directCommands s' c = directCommands (s\<lparr>dynamicOffsets := dynamicOffsets s'\<rparr>) c"
    by (rule flag) simp
  show ?thesis
    using upd hd nth len iff by (simp add: doDraw_fields b)
qed

theorem direct_path_tracks_flag_witness:
  "doDraw_var staleApp = exampleConfiguration
   \<and> dynamicOffsets (settings staleApp)
   \<and> hd (directCommands (settings staleApp) exampleConfiguration) = SetPipeline dynamicPipeline
   \<and> hd (renderBundle exampleConfiguration) = SetPipeline pipeline
   \<and> directCommands (settings staleApp) exampleConfiguration \<noteq> renderBundle exampleConfiguration"
proof -
  have h: "configure exampleDevice halves exampleSettings = Inr exampleConfiguration"
    by (simp add: example_configure exampleConfiguration_def)
  have f: "\<not> dynamicOffsets exampleSettings" by (simp add: exampleSettings_def)
  have g: "dynamicOffsets (settings staleApp)" "doDraw_var staleApp = exampleConfiguration"
    by (simp_all add: staleApp_eq exampleApp_def)
  note t = direct_path_tracks_flag [OF h, of "settings staleApp"]
  note t0 = direct_path_tracks_flag [OF h, of exampleSettings]
  from t have "hd (directCommands (settings staleApp) exampleConfiguration)
                = SetPipeline (if dynamicOffsets (settings staleApp) then dynamicPipeline else pipeline)"
    and "directCommands (settings staleApp) exampleConfiguration = renderBundle exampleConfiguration
           \<longleftrightarrow> dynamicOffsets (settings staleApp) = dynamicOffsets exampleSettings"
    by blast+
  moreover from t0 have "hd (directCommands exampleSettings exampleConfiguration)
                = SetPipeline (if dynamicOffsets exampleSettings then dynamicPipeline else pipeline)"
    and "renderBundle exampleConfiguration = directCommands exampleSettings exampleConfiguration"
    by blast+
  ultimately show ?thesis using f g by simp
qed

end
